theory Spec2Isabelle
  imports Main
begin

section \<open>JavaScript values and built-ins the router relies on\<close>

text \<open>
  Strings are lists of 8-bit characters (the UTF-8 bytes of the JavaScript string).
  A thrown JavaScript exception is a value of type \<open>error\<close>.
\<close>

datatype error =
    TypeError string
  | RangeError string
  | URIError
  | Error string
  | Thrown string

text \<open>\<^verbatim>\<open>Array.prototype.join\<close> on an array of strings.\<close>

fun join :: "string \<Rightarrow> string list \<Rightarrow> string" where
  "join sep [] = []"
| "join sep [x] = x"
| "join sep (x # y # ys) = x @ sep @ join sep (y # ys)"

text \<open>\<^verbatim>\<open>String.prototype.split\<close> with a one-character separator.\<close>

fun split :: "char \<Rightarrow> string \<Rightarrow> string list" where
  "split sep [] = [[]]"
| "split sep (c # cs) =
     (if c = sep then [] # split sep cs
      else (case split sep cs of
              [] \<Rightarrow> [[c]]
            | w # ws \<Rightarrow> (c # w) # ws))"

text \<open>\<^verbatim>\<open>String.prototype.toUpperCase\<close>, on ASCII letters.\<close>

definition toUpperCase_char :: "char \<Rightarrow> char" where
  "toUpperCase_char c =
     (case map_of (zip ''abcdefghijklmnopqrstuvwxyz'' ''ABCDEFGHIJKLMNOPQRSTUVWXYZ'') c of
        None \<Rightarrow> c
      | Some u \<Rightarrow> u)"

definition toUpperCase :: "string \<Rightarrow> string" where
  "toUpperCase s = map toUpperCase_char s"

text \<open>The decimal form of an array index, as a property key.\<close>

definition digit_char :: "nat \<Rightarrow> char" where
  "digit_char d = ''0123456789'' ! d"

fun digits_of :: "nat \<Rightarrow> nat \<Rightarrow> string" where
  "digits_of 0 n = [digit_char (n mod 10)]"
| "digits_of (Suc fuel) n =
     (if n < 10 then [digit_char n]
      else digits_of fuel (n div 10) @ [digit_char (n mod 10)])"

definition index_key :: "nat \<Rightarrow> string" where
  "index_key n = digits_of n n"

subsection \<open>Percent-decoding and percent-encoding\<close>

definition hex_val :: "char \<Rightarrow> nat option" where
  "hex_val c =
     (let n = (of_char c :: nat)
      in if 48 \<le> n \<and> n \<le> 57 then Some (n - 48)
         else if 65 \<le> n \<and> n \<le> 70 then Some (n - 55)
         else if 97 \<le> n \<and> n \<le> 102 then Some (n - 87)
         else None)"

text \<open>
  The first pass of \<^verbatim>\<open>decodeURIComponent\<close>: every \<^verbatim>\<open>%\<close> must be followed by two
  hexadecimal digits. A token is a character that stood for itself, or an escaped byte.
\<close>

datatype token = Raw char | Esc nat

fun tokens :: "string \<Rightarrow> token list option" where
  "tokens [] = Some []"
| "tokens (c # cs) =
     (if c \<noteq> CHR ''%'' then map_option ((#) (Raw c)) (tokens cs)
      else (case cs of
              a # b # rest \<Rightarrow>
                (case (hex_val a, hex_val b) of
                   (Some x, Some y) \<Rightarrow> map_option ((#) (Esc (16 * x + y))) (tokens rest)
                 | _ \<Rightarrow> None)
            | _ \<Rightarrow> None))"

text \<open>
  The second pass: escaped bytes of 128 and above must form well-formed UTF-8
  (\<open>need\<close> continuation bytes are still expected, \<open>cp\<close> is the code point read so far,
  \<open>lo\<close> the least code point the sequence length may encode).
\<close>

fun utf8_ok :: "nat \<Rightarrow> nat \<Rightarrow> nat \<Rightarrow> token list \<Rightarrow> bool" where
  "utf8_ok need cp lo [] = (need = 0)"
| "utf8_ok 0 cp lo (Raw c # ts) = utf8_ok 0 0 0 ts"
| "utf8_ok 0 cp lo (Esc b # ts) =
     (if b < 128 then utf8_ok 0 0 0 ts
      else if 192 \<le> b \<and> b < 224 then utf8_ok 1 (b - 192) 128 ts
      else if 224 \<le> b \<and> b < 240 then utf8_ok 2 (b - 224) 2048 ts
      else if 240 \<le> b \<and> b < 248 then utf8_ok 3 (b - 240) 65536 ts
      else False)"
| "utf8_ok (Suc n) cp lo (Raw c # ts) = False"
| "utf8_ok (Suc n) cp lo (Esc b # ts) =
     (if 128 \<le> b \<and> b < 192 then
        (let cp' = cp * 64 + (b - 128)
         in if n = 0 then
              lo \<le> cp' \<and> cp' \<le> 1114111 \<and> \<not> (55296 \<le> cp' \<and> cp' \<le> 57343) \<and> utf8_ok 0 0 0 ts
            else utf8_ok n cp' lo ts)
      else False)"

definition token_char :: "token \<Rightarrow> char" where
  "token_char t = (case t of Raw c \<Rightarrow> c | Esc b \<Rightarrow> char_of b)"

text \<open>\<^verbatim>\<open>decodeURIComponent\<close>: throws \<^verbatim>\<open>URIError\<close> on malformed input.\<close>

definition decodeURIComponent :: "string \<Rightarrow> error + string" where
  "decodeURIComponent text =
     (case tokens text of
        None \<Rightarrow> Inl URIError
      | Some ts \<Rightarrow> if utf8_ok 0 0 0 ts then Inr (map token_char ts) else Inl URIError)"

definition hex_digit :: "nat \<Rightarrow> char" where
  "hex_digit d = ''0123456789ABCDEF'' ! d"

definition unreserved :: "char \<Rightarrow> bool" where
  "unreserved c =
     (let n = (of_char c :: nat)
      in (48 \<le> n \<and> n \<le> 57) \<or> (65 \<le> n \<and> n \<le> 90) \<or> (97 \<le> n \<and> n \<le> 122)
         \<or> c \<in> set ''-_.!~*'()'')"

text \<open>\<^verbatim>\<open>encodeURIComponent\<close> on the bytes of a string.\<close>

definition encode_char :: "char \<Rightarrow> string" where
  "encode_char c =
     (if unreserved c then [c]
      else (let n = (of_char c :: nat)
            in [CHR ''%'', hex_digit (n div 16), hex_digit (n mod 16)]))"

definition encodeURIComponent :: "string \<Rightarrow> string" where
  "encodeURIComponent s = concat (map encode_char s)"

subsection \<open>\<^verbatim>\<open>String.prototype.replace\<close>\<close>

text \<open>The first occurrence of a substring: the text before it and the text after it.\<close>

fun find_first :: "string \<Rightarrow> string \<Rightarrow> (string \<times> string) option" where
  "find_first needle [] = (if needle = [] then Some ([], []) else None)"
| "find_first needle (c # cs) =
     (if take (length needle) (c # cs) = needle
      then Some ([], drop (length needle) (c # cs))
      else map_option (\<lambda>(b, a). (c # b, a)) (find_first needle cs))"

text \<open>
  The replacement text after expansion of the \<^verbatim>\<open>$\<close> patterns, for a pattern
  without capture groups: \<open>m\<close> is the matched text, \<open>b\<close> and \<open>a\<close> the text before and after
  it.
\<close>

fun expand :: "string \<Rightarrow> string \<Rightarrow> string \<Rightarrow> string \<Rightarrow> string" where
  "expand m b a (c # d # r) =
     (if c = CHR ''$'' \<and> d = CHR ''$'' then CHR ''$'' # expand m b a r
      else if c = CHR ''$'' \<and> d = CHR ''&'' then m @ expand m b a r
      else if c = CHR ''$'' \<and> d = CHR 0x60 then b @ expand m b a r
      else if c = CHR ''$'' \<and> d = CHR 0x27 then a @ expand m b a r
      else c # expand m b a (d # r))"
| "expand m b a r = r"

text \<open>\<^verbatim>\<open>url.replace(needle, value)\<close> with a string pattern.\<close>

definition replace_string :: "string \<Rightarrow> string \<Rightarrow> string \<Rightarrow> string" where
  "replace_string needle val url =
     (case find_first needle url of
        None \<Rightarrow> url
      | Some (b, a) \<Rightarrow> b @ expand needle b a val @ a)"

text \<open>
  The first match of the regular expression \<^verbatim>\<open>/:[^\/]+/\<close>: a colon followed by at
  least one character other than a slash, as many as there are.
\<close>

fun find_placeholder :: "string \<Rightarrow> (string \<times> string \<times> string) option" where
  "find_placeholder [] = None"
| "find_placeholder (c # cs) =
     (if c = CHR '':'' \<and> cs \<noteq> [] \<and> hd cs \<noteq> CHR ''/''
      then Some ([], c # takeWhile (\<lambda>x. x \<noteq> CHR ''/'') cs, dropWhile (\<lambda>x. x \<noteq> CHR ''/'') cs)
      else map_option (\<lambda>(b, m, a). (c # b, m, a)) (find_placeholder cs))"

text \<open>\<^verbatim>\<open>url.replace(/:[^\/]+/, value)\<close>.\<close>

definition replace_placeholder :: "string \<Rightarrow> string \<Rightarrow> string" where
  "replace_placeholder val url =
     (case find_placeholder url of
        None \<Rightarrow> url
      | Some (b, m, a) \<Rightarrow> b @ expand m b a val @ a)"


subsection \<open>Objects as ordered dictionaries\<close>

text \<open>
  \<^verbatim>\<open>Object.keys\<close>: the keys that are array indices come first, in ascending numeric
  order, then the other keys in the order of their insertion.
\<close>

definition number_of :: "string \<Rightarrow> nat" where
  "number_of s = fold (\<lambda>c n. 10 * n + ((of_char c :: nat) - 48)) s 0"

definition is_array_index :: "string \<Rightarrow> bool" where
  "is_array_index s =
     (s \<noteq> [] \<and> list_all (\<lambda>c. 48 \<le> (of_char c :: nat) \<and> (of_char c :: nat) \<le> 57) s
      \<and> (s = ''0'' \<or> hd s \<noteq> CHR ''0'') \<and> length s \<le> 10 \<and> int (number_of s) < 4294967295)"

definition object_keys :: "string list \<Rightarrow> string list" where
  "object_keys ks =
     sort_key number_of (filter is_array_index ks) @ filter (\<lambda>k. \<not> is_array_index k) ks"

text \<open>\<^verbatim>\<open>obj[k] = v\<close> on an object given by its entries in insertion order.\<close>

fun object_set :: "string \<Rightarrow> 'v \<Rightarrow> (string \<times> 'v) list \<Rightarrow> (string \<times> 'v) list" where
  "object_set k v [] = [(k, v)]"
| "object_set k v ((k', v') # r) =
     (if k = k' then (k, v) # r else (k', v') # object_set k v r)"

text \<open>\<^verbatim>\<open>obj[k] = true\<close> on an object whose values are all \<^verbatim>\<open>true\<close>, given by its keys.\<close>

definition key_set :: "string \<Rightarrow> string list \<Rightarrow> string list" where
  "key_set k ks = (if k \<in> set ks then ks else ks @ [k])"

subsection \<open>Arrays and objects that hold parameters\<close>

text \<open>
  The values a parameter object holds: \<^verbatim>\<open>undefined\<close>, a string, or a number.
\<close>

datatype pval = Undefined | Str string | Num nat

text \<open>
  An object by its own enumerable properties in insertion order; for an array
  (\<open>is_array\<close>), \<open>alen\<close> is its \<^verbatim>\<open>length\<close>, which is not among \<open>props\<close>. Its prototype is
  \<^verbatim>\<open>Array.prototype\<close> or \<^verbatim>\<open>Object.prototype\<close>.
\<close>

record jsobj =
  is_array :: bool
  props :: "(string \<times> pval) list"
  alen :: nat

text \<open>The array literal \<^verbatim>\<open>[]\<close>.\<close>

definition new_array :: jsobj where
  "new_array = \<lparr>is_array = True, props = [], alen = 0\<rparr>"

text \<open>
  What a member found on a prototype does when \<^verbatim>\<open>compose\<close> calls it as
  \<^verbatim>\<open>fn.call(context, next)\<close>: it returns \<^verbatim>\<open>next\<close> itself (as \<^verbatim>\<open>Object\<close> does), it returns
  a value that is not a generator (truthy or falsy), or the call throws.
\<close>

datatype inherited =
    ReturnsNext
  | ReturnsValue bool
  | CallThrows error

text \<open>
  What a property lookup finds: nothing (or a falsy value), a member, or the lookup
  itself throws.
\<close>

datatype found = Absent | Found inherited | LookupThrows error

text \<open>
  What the JavaScript engine decides and the repository does not: whether
  \<^verbatim>\<open>ToNumber\<close> of a string is an array length (an integer below 4294967296) and which;
  what a property lookup finds on a generator function and the prototypes behind it;
  and under which names these hold a property that cannot be assigned to, so that an
  assignment to an object that inherits it throws (the files are in strict mode). The
  engine is a parameter of everything that depends on it.
\<close>

record engine =
  string_to_length :: "string \<Rightarrow> nat option"
  function_member :: "string \<Rightarrow> found"
  function_readonly :: "string \<Rightarrow> bool"

text \<open>
  The members of \<^verbatim>\<open>Object.prototype\<close>, as \<^verbatim>\<open>compose\<close> meets them. \<^verbatim>\<open>Object\<close> returns its
  argument; \<^verbatim>\<open>toString\<close> and \<^verbatim>\<open>toLocaleString\<close> return a string and \<^verbatim>\<open>valueOf\<close> the
  context; \<^verbatim>\<open>hasOwnProperty\<close>, \<^verbatim>\<open>isPrototypeOf\<close> and \<^verbatim>\<open>propertyIsEnumerable\<close> return
  \<^verbatim>\<open>false\<close>, \<^verbatim>\<open>__lookupGetter__\<close> and \<^verbatim>\<open>__lookupSetter__\<close> \<^verbatim>\<open>undefined\<close>;
  \<^verbatim>\<open>__defineGetter__\<close> and \<^verbatim>\<open>__defineSetter__\<close> throw for want of a function as second
  argument; \<^verbatim>\<open>__proto__\<close> is \<^verbatim>\<open>Object.prototype\<close> itself, an object without \<^verbatim>\<open>call\<close>.
\<close>

definition object_member :: "string \<Rightarrow> inherited option" where
  "object_member name =
     (if name = ''constructor'' then Some ReturnsNext
      else if name \<in> set [''toString'', ''toLocaleString'', ''valueOf'']
      then Some (ReturnsValue True)
      else if name \<in> set [''hasOwnProperty'', ''isPrototypeOf'', ''propertyIsEnumerable'',
                            ''__lookupGetter__'', ''__lookupSetter__'']
      then Some (ReturnsValue False)
      else if name \<in> set [''__defineGetter__'', ''__defineSetter__'']
      then Some (CallThrows (TypeError ''Object.prototype.__defineGetter__: Expecting function''))
      else if name = ''__proto__''
      then Some (CallThrows (TypeError ''undefined is not a function''))
      else None)"

text \<open>
  The length a value stands for when it is assigned to the \<^verbatim>\<open>length\<close> of an array, if
  it stands for one.
\<close>

definition to_length :: "engine \<Rightarrow> pval \<Rightarrow> nat option" where
  "to_length E v =
     (case v of
        Undefined \<Rightarrow> None
      | Num n \<Rightarrow> if int n < 4294967296 then Some n else None
      | Str t \<Rightarrow> string_to_length E t)"

text \<open>
  \<^verbatim>\<open>a[k] = v\<close> on an array, for a value that is not an object. Under \<^verbatim>\<open>__proto__\<close> the
  setter of \<^verbatim>\<open>Object.prototype\<close> ignores it. Under \<^verbatim>\<open>length\<close> the array is cut to that
  length, and a value that is no length throws \<^verbatim>\<open>RangeError\<close>. Under an array index
  the length grows to hold it.
\<close>

definition array_assign :: "engine \<Rightarrow> string \<Rightarrow> pval \<Rightarrow> jsobj \<Rightarrow> error + jsobj" where
  "array_assign E k v a =
     (if k = ''__proto__'' then Inr a
      else if k = ''length'' then
        (case to_length E v of
           None \<Rightarrow> Inl (RangeError ''Invalid array length'')
         | Some n \<Rightarrow>
             Inr (a\<lparr>props := filter (\<lambda>(j, w). \<not> (is_array_index j \<and> n \<le> number_of j)) (props a),
                     alen := n\<rparr>))
      else
        Inr (a\<lparr>props := object_set k v (props a),
                alen := (if is_array_index k then max (alen a) (Suc (number_of k)) else alen a)\<rparr>))"

text \<open>
  \<^verbatim>\<open>a[k]\<close>: an own property, or what the prototype of the object holds under that name
  (the flag tells whether it is that of an array).
\<close>

datatype looked = Own pval | FromPrototype bool string

definition obj_get :: "jsobj \<Rightarrow> string \<Rightarrow> looked" where
  "obj_get a k =
     (if is_array a \<and> k = ''length'' then Own (Num (alen a))
      else (case map_of (props a) k of
              Some v \<Rightarrow> Own v
            | None \<Rightarrow> FromPrototype (is_array a) k))"

text \<open>
  \<^verbatim>\<open>for (prop in a)\<close> with \<^verbatim>\<open>a[prop]\<close>: the enumerable properties, array indices first.
\<close>

definition for_in :: "jsobj \<Rightarrow> (string \<times> pval) list" where
  "for_in a =
     map (\<lambda>k. (k, case map_of (props a) k of None \<Rightarrow> Undefined | Some v \<Rightarrow> v))
       (object_keys (map fst (props a)))"

text \<open>A sequence of assignments on an array; the first that throws ends it.\<close>

fun assign_all :: "engine \<Rightarrow> (string \<times> pval) list \<Rightarrow> jsobj \<Rightarrow> error + jsobj" where
  "assign_all E [] c = Inr c"
| "assign_all E ((k, v) # kvs) c =
     (case array_assign E k v c of
        Inl e \<Rightarrow> Inl e
      | Inr c' \<Rightarrow> assign_all E kvs c')"

section \<open>The request context and middleware\<close>

text \<open>
  The part of the koa context the router reads and writes: \<^verbatim>\<open>path\<close>, \<^verbatim>\<open>params\<close>
  (\<open>None\<close> is \<^verbatim>\<open>undefined\<close>), \<^verbatim>\<open>method\<close>, \<^verbatim>\<open>response._explicitStatus\<close>,
  \<^verbatim>\<open>res.statusCode\<close>, \<^verbatim>\<open>res.statusMessage\<close>, the response headers and the body.
\<close>

record koa_context =
  ctx_path :: string
  ctx_params :: "jsobj option"
  ctx_method :: string
  explicitStatus :: bool
  statusCode :: nat
  statusMessage :: "string option"
  headers :: "string \<rightharpoonup> string"
  body :: "string option"

text \<open>
  A generator function used as middleware, as the sequence of things it does: it
  returns, throws, changes the context, looks at the context to decide how to go on,
  delegates to its continuation (\<^verbatim>\<open>yield *next\<close>), or runs a block under
  \<^verbatim>\<open>try\<close>/\<^verbatim>\<open>catch\<close> and goes on after it (\<open>Return\<close> in the block ends the block).
\<close>

datatype prog =
    Return
  | Throw error
  | Modify "koa_context \<Rightarrow> koa_context" prog
  | Choose "koa_context \<Rightarrow> prog"
  | YieldNext prog
  | Try prog "error \<Rightarrow> prog" prog

text \<open>
  The variables one dispatch shares between the activations of \<^verbatim>\<open>next\<close>: the context,
  \<^verbatim>\<open>methodsAvailable\<close> (its keys in insertion order) and \<^verbatim>\<open>called\<close>; \<open>done_runs\<close> counts
  the executions of \<^verbatim>\<open>yield *done\<close>. The cursor \<^verbatim>\<open>index\<close> is the list of candidates not
  yet inspected.
\<close>

record dispatch =
  ctx :: koa_context
  methodsAvailable :: "string list"
  called :: bool
  done_runs :: nat

text \<open>A generator ends by returning or by throwing; the context is left as it is then.\<close>

datatype outcome = Returned dispatch | Raised error dispatch

text \<open>The state a generator leaves behind.\<close>

definition final :: "outcome \<Rightarrow> dispatch" where
  "final out = (case out of Returned s \<Rightarrow> s | Raised e s \<Rightarrow> s)"

text \<open>
  What a middleware function receives as \<^verbatim>\<open>next\<close>: a generator object, or (after a
  member of a prototype in the chain) a value that is not one, truthy or falsy. A
  generator object runs once, and delegating to it again does nothing; delegating to
  anything else throws, each time.
\<close>

datatype cont = Generator "dispatch \<Rightarrow> outcome" | Value bool

definition not_a_generator :: error where
  "not_a_generator = TypeError ''next is not a generator''"

text \<open>\<^verbatim>\<open>yield *next\<close> on a continuation that has not run.\<close>

definition delegate :: "cont \<Rightarrow> dispatch \<Rightarrow> outcome" where
  "delegate k s = (case k of Generator g \<Rightarrow> g s | Value t \<Rightarrow> Raised not_a_generator s)"

text \<open>
  Running a generator with continuation \<open>k\<close>; \<open>u\<close> tells that the continuation has run.
\<close>

primrec run :: "prog \<Rightarrow> cont \<Rightarrow> bool \<Rightarrow> dispatch \<Rightarrow> outcome \<times> bool" where
  "run Return k u s = (Returned s, u)"
| "run (Throw e) k u s = (Raised e s, u)"
| "run (Modify f p) k u s = run p k u (s\<lparr>ctx := f (ctx s)\<rparr>)"
| "run (Choose f) k u s = run (f (ctx s)) k u s"
| "run (YieldNext p) k u s =
     (case k of
        Value t \<Rightarrow> (Raised not_a_generator s, u)
      | Generator g \<Rightarrow>
          (if u then run p k True s
           else (case g s of
                   Returned s' \<Rightarrow> run p k True s'
                 | Raised e s' \<Rightarrow> (Raised e s', True))))"
| "run (Try b h p) k u s =
     (case run b k u s of
        (Returned s', u') \<Rightarrow> run p k u' s'
      | (Raised e s', u') \<Rightarrow>
          (case run (h e) k u' s' of
             (Returned s'', u'') \<Rightarrow> run p k u'' s''
           | (Raised e' s'', u'') \<Rightarrow> (Raised e' s'', u'')))"

text \<open>
  What a route holds as middleware: a generator function, the wrapper
  \<^verbatim>\<open>function *(next) { yield *fn.call(this, this.params[param], next); }\<close> of a
  parameter hook, the composition of a koa application's middleware, or a member of a
  prototype that the lookup of a hook found.
\<close>

datatype handler =
    Gen prog
  | ParamHook string "looked \<Rightarrow> prog"
  | Composed "prog list"
  | Inherited inherited

text \<open>
  \<^verbatim>\<open>compose\<close> (koa-compose) returns a generator function. When its generator starts, it
  calls every function of the list, from the last to the first, with what the one
  after it returned as \<^verbatim>\<open>next\<close> (the last one with the \<^verbatim>\<open>next\<close> of the whole, or an empty
  generator if that is falsy), and then delegates to what the first one returned.
  Calling a generator function makes a generator and runs nothing.
\<close>

fun progs_cont :: "prog list \<Rightarrow> cont \<Rightarrow> cont" where
  "progs_cont [] k = k"
| "progs_cont (p # ps) k = Generator (\<lambda>s. fst (run p (progs_cont ps k) False s))"

definition truthy :: "cont \<Rightarrow> bool" where
  "truthy k = (case k of Generator g \<Rightarrow> True | Value t \<Rightarrow> t)"

definition compose_progs :: "prog list \<Rightarrow> cont \<Rightarrow> dispatch \<Rightarrow> outcome" where
  "compose_progs ps k s =
     delegate (progs_cont ps (if truthy k then k else Generator Returned)) s"

text \<open>\<^verbatim>\<open>middleware[i].call(this, next)\<close>: what it returns, or what it throws.\<close>

definition call_handler :: "handler \<Rightarrow> cont \<Rightarrow> error + cont" where
  "call_handler h k =
     (case h of
        Gen p \<Rightarrow> Inr (Generator (\<lambda>s. fst (run p k False s)))
      | ParamHook param fn \<Rightarrow>
          Inr (Generator (\<lambda>s.
            case ctx_params (ctx s) of
              None \<Rightarrow> Raised (TypeError ''Cannot read property of undefined'') s
            | Some a \<Rightarrow> fst (run (fn (obj_get a param)) k False s)))
      | Composed ps \<Rightarrow> Inr (Generator (compose_progs ps k))
      | Inherited ReturnsNext \<Rightarrow> Inr (case k of Generator g \<Rightarrow> k | Value t \<Rightarrow> Value True)
      | Inherited (ReturnsValue t) \<Rightarrow> Inr (Value t)
      | Inherited (CallThrows e) \<Rightarrow> Inl e)"

fun compose_calls :: "handler list \<Rightarrow> cont \<Rightarrow> error + cont" where
  "compose_calls [] k = Inr k"
| "compose_calls (h # hs) k =
     (case compose_calls hs k of
        Inl e \<Rightarrow> Inl e
      | Inr k' \<Rightarrow> call_handler h k')"

text \<open>
  The middleware of a route, called with a generator as \<^verbatim>\<open>next\<close> and delegated to.
\<close>

definition run_chain :: "handler list \<Rightarrow> (dispatch \<Rightarrow> outcome) \<Rightarrow> dispatch \<Rightarrow> outcome" where
  "run_chain chain g s =
     (case compose_calls chain (Generator g) of
        Inl e \<Rightarrow> Raised e s
      | Inr k \<Rightarrow> delegate k s)"


section \<open>Route\<close>

text \<open>
  A regular expression is given by what \<^verbatim>\<open>path.match(regexp)\<close> returns: \<open>None\<close> for
  \<^verbatim>\<open>null\<close>, or the matched text and the captures (\<open>None\<close> for a group that took no
  part in the match).
\<close>

type_synonym regexp = "string \<Rightarrow> (string \<times> string option list) option"

text \<open>A key that \<^verbatim>\<open>pathToRegexp\<close> reports for a capture group.\<close>

record key =
  key_name :: string
  key_optional :: bool

text \<open>
  The options \<^verbatim>\<open>Route\<close> passes to \<^verbatim>\<open>pathToRegexp\<close>. The library itself is not part of
  the repository: it is a parameter of the constructor, a function from the pattern
  and these options to the keys and the regular expression.
\<close>

record compile_opts =
  opt_sensitive :: bool
  opt_strict :: bool
  opt_end :: bool

type_synonym compiler = "string \<Rightarrow> compile_opts \<Rightarrow> key list \<times> regexp"

text \<open>The options of a router (a missing option is falsy).\<close>

record opts =
  caseSensitive :: bool
  strict :: bool
  mergeParams :: bool

text \<open>
  The \<^verbatim>\<open>path\<close> argument: a string, or a \<^verbatim>\<open>RegExp\<close> with its source and flags. The
  \<^verbatim>\<open>middleware\<close> arguments: a generator function, an object with a \<^verbatim>\<open>use\<close> property
  (a koa application, with its middleware), or anything else, with its \<^verbatim>\<open>typeof\<close>.
\<close>

datatype path_arg = StringPath string | RegExpPath string string regexp

datatype mw_arg = FnArg prog | AppArg "prog list" | OtherArg string

text \<open>
  A route. \<^verbatim>\<open>fns.params\<close> is a plain object: \<open>fns_params\<close> are its own properties, and
  \<open>fns_proto\<close> is the function an assignment under \<^verbatim>\<open>__proto__\<close> has made its prototype
  (\<open>None\<close> while that is \<^verbatim>\<open>Object.prototype\<close>).
\<close>

record route =
  route_name :: "string option"
  asPrefix :: bool
  route_methods :: "string list"
  route_params :: "key list"
  fns_params :: "string \<rightharpoonup> handler"
  fns_proto :: "handler option"
  fns_middleware :: "handler list"
  route_opts :: opts
  route_path :: string
  route_regexp :: regexp
  route_middleware :: "handler list option"

definition path_toString :: "path_arg \<Rightarrow> string" where
  "path_toString p =
     (case p of StringPath t \<Rightarrow> t | RegExpPath src flags re \<Rightarrow> ''/'' @ src @ ''/'' @ flags)"

text \<open>
  The loop over \<^verbatim>\<open>middleware\<close> in the constructor: an application is replaced by the
  composition of its middleware, and the first element that is neither a function nor
  an application throws.
\<close>

fun check_middleware :: "string \<Rightarrow> mw_arg list \<Rightarrow> error + handler list" where
  "check_middleware who [] = Inr []"
| "check_middleware who (a # as) =
     (case a of
        OtherArg ty \<Rightarrow>
          Inl (Error (who @ '': `middleware` must be a function or application, not `''
                        @ ty @ ''`''))
      | FnArg p \<Rightarrow>
          (case check_middleware who as of Inl e \<Rightarrow> Inl e | Inr hs \<Rightarrow> Inr (Gen p # hs))
      | AppArg ps \<Rightarrow>
          (case check_middleware who as of Inl e \<Rightarrow> Inl e | Inr hs \<Rightarrow> Inr (Composed ps # hs)))"

text \<open>
  \<^verbatim>\<open>new Route(path, methods, middleware, name, opts)\<close>. \<open>methods\<close> is \<open>None\<close> when the
  caller passes \<^verbatim>\<open>null\<close>: reading \<^verbatim>\<open>methods.length\<close> throws then. The field
  \<^verbatim>\<open>middleware\<close> is \<^verbatim>\<open>compose(middleware)\<close> for more than one function, else
  \<^verbatim>\<open>middleware[0]\<close>, which is \<^verbatim>\<open>undefined\<close> (\<open>None\<close>) for an empty list.
\<close>

definition Route ::
  "compiler \<Rightarrow> path_arg \<Rightarrow> string list option \<Rightarrow> mw_arg list \<Rightarrow> string option \<Rightarrow> opts
     \<Rightarrow> error + route" where
  "Route pathToRegexp path methods middleware name os =
     (case methods of
        None \<Rightarrow> Inl (TypeError ''Cannot read property 'length' of null'')
      | Some ms \<Rightarrow>
          (let nm = (case name of None \<Rightarrow> None | Some n \<Rightarrow> if n = [] then None else Some n);
               prefix = (ms = []);
               (keys, re) =
                 (case path of
                    RegExpPath src flags r \<Rightarrow> ([], r)
                  | StringPath t \<Rightarrow>
                      pathToRegexp t
                        \<lparr>opt_sensitive = caseSensitive os,
                         opt_strict = (strict os \<or> \<not> prefix),
                         opt_end = (if prefix then False else True)\<rparr>);
               who = join '','' ms @ '' `''
                     @ (case nm of None \<Rightarrow> path_toString path | Some n \<Rightarrow> n) @ ''`''
           in case check_middleware who middleware of
                Inl e \<Rightarrow> Inl e
              | Inr hs \<Rightarrow>
                  Inr \<lparr>route_name = nm,
                       asPrefix = prefix,
                       route_methods = map toUpperCase ms,
                       route_params = keys,
                       fns_params = Map.empty,
                       fns_proto = None,
                       fns_middleware = hs,
                       route_opts = os,
                       route_path = (case path of StringPath t \<Rightarrow> t | RegExpPath src flags r \<Rightarrow> src),
                       route_regexp = re,
                       route_middleware =
                         (if length hs > 1 then Some hs
                          else (case hs of [] \<Rightarrow> None | h # _ \<Rightarrow> Some [h]))\<rparr>))"

subsection \<open>\<^verbatim>\<open>route.match\<close>\<close>

text \<open>\<^verbatim>\<open>safeDecodeURIComponent\<close>: the \<^verbatim>\<open>catch\<close> branch returns the text as it came.\<close>

definition safeDecodeURIComponent :: "string \<Rightarrow> string" where
  "safeDecodeURIComponent text =
     (case decodeURIComponent text of Inl e \<Rightarrow> text | Inr t \<Rightarrow> t)"

text \<open>\<^verbatim>\<open>c ? safeDecodeURIComponent(c) : c\<close>: \<^verbatim>\<open>undefined\<close> and the empty string are falsy.\<close>

definition capture_value :: "string option \<Rightarrow> pval" where
  "capture_value c =
     (case c of
        None \<Rightarrow> Undefined
      | Some t \<Rightarrow> if t = [] then Str [] else Str (safeDecodeURIComponent t))"

text \<open>
  The loop that stores the captures under the names of the keys, for as long as there
  is a key. \<^verbatim>\<open>params\<close> is an array: an assignment can throw.
\<close>

fun named_params :: "engine \<Rightarrow> key list \<Rightarrow> string option list \<Rightarrow> jsobj \<Rightarrow> error + jsobj" where
  "named_params E ks [] a = Inr a"
| "named_params E [] (c # cs) a = Inr a"
| "named_params E (k # ks) (c # cs) a =
     (case array_assign E (key_name k) (capture_value c) a of
        Inl e \<Rightarrow> Inl e
      | Inr a' \<Rightarrow> named_params E ks cs a')"

text \<open>The loop that stores the captures by position.\<close>

fun indexed_params :: "engine \<Rightarrow> nat \<Rightarrow> string option list \<Rightarrow> jsobj \<Rightarrow> error + jsobj" where
  "indexed_params E i [] a = Inr a"
| "indexed_params E i (c # cs) a =
     (case array_assign E (index_key i) (capture_value c) a of
        Inl e \<Rightarrow> Inl e
      | Inr a' \<Rightarrow> indexed_params E (Suc i) cs a')"

text \<open>The rest of the path after the matched text, with a slash put in front if need be.\<close>

definition rest_path :: "string \<Rightarrow> string \<Rightarrow> string" where
  "rest_path matched path =
     (let p = drop (length matched) path
      in if p = [] \<or> hd p \<noteq> CHR ''/'' then CHR ''/'' # p else p)"

text \<open>
  \<^verbatim>\<open>route.match\<close>: \<open>Inr None\<close> is \<^verbatim>\<open>null\<close>, \<open>Inl\<close> what an assignment to \<^verbatim>\<open>params\<close> threw.
\<close>

definition route_match :: "engine \<Rightarrow> route \<Rightarrow> string \<Rightarrow> error + (jsobj \<times> string) option" where
  "route_match E r path =
     (case route_regexp r path of
        None \<Rightarrow> Inr None
      | Some (matched, captures) \<Rightarrow>
          (case (if route_params r \<noteq> []
                 then named_params E (route_params r) captures new_array
                 else indexed_params E 0 captures new_array) of
             Inl e \<Rightarrow> Inl e
           | Inr params \<Rightarrow> Inr (Some (params, rest_path matched path))))"

subsection \<open>\<^verbatim>\<open>route.url\<close>\<close>

text \<open>
  The arguments of \<^verbatim>\<open>url\<close>: an object, by its enumerable properties in enumeration
  order, or a list (an array, or the arguments themselves when the first one is not an
  object).
\<close>

datatype url_args = ObjectArgs "(string \<times> string) list" | ListArgs "string list"

definition route_url :: "route \<Rightarrow> url_args \<Rightarrow> string" where
  "route_url r args =
     (let url =
        (case args of
           ListArgs vs \<Rightarrow> fold replace_placeholder vs (route_path r)
         | ObjectArgs kvs \<Rightarrow> fold (\<lambda>(k, v). replace_string (CHR '':'' # k) v) kvs (route_path r))
      in join ''/'' (map encodeURIComponent (split (CHR ''/'') url)))"

subsection \<open>\<^verbatim>\<open>route.param\<close>\<close>

text \<open>
  \<^verbatim>\<open>this.fns.params[name]\<close>: an own property, or else what the prototype holds under
  that name. \<open>Inr None\<close> is a falsy result, \<open>Inl\<close> what the lookup threw.
\<close>

definition fns_lookup :: "engine \<Rightarrow> route \<Rightarrow> string \<Rightarrow> error + handler option" where
  "fns_lookup E r name =
     (case fns_params r name of
        Some h \<Rightarrow> Inr (Some h)
      | None \<Rightarrow>
          (case fns_proto r of
             None \<Rightarrow> Inr (map_option Inherited (object_member name))
           | Some w \<Rightarrow>
               if name = ''__proto__'' then Inr (Some w)
               else (case function_member E name of
                       Absent \<Rightarrow> Inr None
                     | Found b \<Rightarrow> Inr (Some (Inherited b))
                     | LookupThrows e \<Rightarrow> Inl e)))"

text \<open>
  The loop \<^verbatim>\<open>this.params.forEach\<close> of \<^verbatim>\<open>route.param\<close>: what the lookups find for the keys
  of the pattern, in their order.
\<close>

fun hooks_for :: "engine \<Rightarrow> route \<Rightarrow> key list \<Rightarrow> error + handler list" where
  "hooks_for E r [] = Inr []"
| "hooks_for E r (k # ks) =
     (case fns_lookup E r (key_name k) of
        Inl e \<Rightarrow> Inl e
      | Inr f \<Rightarrow>
          (case hooks_for E r ks of
             Inl e \<Rightarrow> Inl e
           | Inr hs \<Rightarrow> Inr (case f of None \<Rightarrow> hs | Some h \<Rightarrow> h # hs)))"

text \<open>
  \<^verbatim>\<open>route.param\<close>: the route as the call leaves it, and what it threw if it threw. The
  assignment to \<^verbatim>\<open>this.fns.params[param]\<close> comes first: under \<^verbatim>\<open>__proto__\<close> it replaces
  the prototype; under a new name that the prototype, once a function, holds read-only
  it throws; else it adds or replaces an own property. What it did stays when a lookup
  throws after it.
\<close>

definition route_param :: "engine \<Rightarrow> string \<Rightarrow> (looked \<Rightarrow> prog) \<Rightarrow> route \<Rightarrow> route \<times> error option" where
  "route_param E param fn r =
     (if param \<noteq> ''__proto__'' \<and> fns_params r param = None \<and> fns_proto r \<noteq> None
         \<and> function_readonly E param
      then (r, Some (TypeError ''Cannot assign to read only property''))
      else
        (let r1 = (if param = ''__proto__'' then r\<lparr>fns_proto := Some (ParamHook param fn)\<rparr>
                   else r\<lparr>fns_params := (fns_params r)(param \<mapsto> ParamHook param fn)\<rparr>)
         in case hooks_for E r1 (route_params r) of
              Inl e \<Rightarrow> (r1, Some e)
            | Inr middleware \<Rightarrow>
                (r1\<lparr>route_middleware := Some (middleware @ fns_middleware r)\<rparr>, None)))"


section \<open>Router\<close>

text \<open>
  A router. \<^verbatim>\<open>params\<close> is a plain object: \<open>router_params\<close> are its own properties in
  insertion order, and \<open>params_proto\<close> tells that an assignment under \<^verbatim>\<open>__proto__\<close> has
  made a hook its prototype.
\<close>

record router =
  router_opts :: opts
  router_methods :: "string list"
  router_routes :: "route list"
  router_params :: "(string \<times> (looked \<Rightarrow> prog)) list"
  params_proto :: bool

text \<open>\<^verbatim>\<open>new Router(opts)\<close>.\<close>

definition Router :: "opts \<Rightarrow> router" where
  "Router os =
     \<lparr>router_opts = os, router_methods = [''OPTIONS''], router_routes = [], router_params = [],
      params_proto = False\<rparr>"

text \<open>
  \<^verbatim>\<open>Object.keys(this.params).forEach(function (param) { route.param(param, this.params[param]); })\<close>
\<close>

fun param_each ::
  "engine \<Rightarrow> (string \<times> (looked \<Rightarrow> prog)) list \<Rightarrow> string list \<Rightarrow> route \<Rightarrow> error + route" where
  "param_each E ps [] r = Inr r"
| "param_each E ps (k # ks) r =
     (case map_of ps k of
        None \<Rightarrow> param_each E ps ks r
      | Some fn \<Rightarrow>
          (case route_param E k fn r of
             (r', Some e) \<Rightarrow> Inl e
           | (r', None) \<Rightarrow> param_each E ps ks r'))"

definition attach_params :: "engine \<Rightarrow> router \<Rightarrow> route \<Rightarrow> error + route" where
  "attach_params E R r =
     param_each E (router_params R) (object_keys (map fst (router_params R))) r"

text \<open>The loop of \<^verbatim>\<open>register\<close> that adds the methods of the route to the router's.\<close>

definition add_methods :: "string list \<Rightarrow> string list \<Rightarrow> string list" where
  "add_methods ms known = fold (\<lambda>m acc. if m \<in> set acc then acc else acc @ [m]) ms known"

text \<open>\<^verbatim>\<open>router.register\<close>: returns the route; the router is returned updated.\<close>

definition register ::
  "engine \<Rightarrow> compiler \<Rightarrow> string option \<Rightarrow> path_arg \<Rightarrow> string list option \<Rightarrow> mw_arg list \<Rightarrow> router
     \<Rightarrow> error + (route \<times> router)" where
  "register E pathToRegexp name path methods middleware R =
     (case Route pathToRegexp path methods middleware name (router_opts R) of
        Inl e \<Rightarrow> Inl e
      | Inr r0 \<Rightarrow>
          (case attach_params E R r0 of
             Inl e \<Rightarrow> Inl e
           | Inr r \<Rightarrow>
               Inr (r, R\<lparr>router_routes := router_routes R @ [r],
                         router_methods := add_methods (route_methods r) (router_methods R)\<rparr>)))"

text \<open>\<^verbatim>\<open>router[method]\<close>, for a verb of the \<^verbatim>\<open>methods\<close> package.\<close>

definition verb ::
  "engine \<Rightarrow> compiler \<Rightarrow> string \<Rightarrow> string option \<Rightarrow> path_arg \<Rightarrow> mw_arg list \<Rightarrow> router
     \<Rightarrow> error + router" where
  "verb E pathToRegexp method name path middleware R =
     (case register E pathToRegexp name path (Some [method]) middleware R of
        Inl e \<Rightarrow> Inl e
      | Inr (r, R') \<Rightarrow> Inr R')"

text \<open>\<^verbatim>\<open>router.mount\<close>: the route is made with \<^verbatim>\<open>null\<close> for \<^verbatim>\<open>methods\<close>.\<close>

definition mount ::
  "engine \<Rightarrow> compiler \<Rightarrow> string option \<Rightarrow> path_arg \<Rightarrow> mw_arg list \<Rightarrow> router \<Rightarrow> error + router" where
  "mount E pathToRegexp name path middleware R =
     (case Route pathToRegexp path None middleware name (router_opts R) of
        Inl e \<Rightarrow> Inl e
      | Inr r0 \<Rightarrow>
          (case attach_params E R r0 of
             Inl e \<Rightarrow> Inl e
           | Inr r \<Rightarrow> Inr (R\<lparr>router_routes := router_routes R @ [r]\<rparr>)))"

text \<open>
  \<^verbatim>\<open>router.param\<close>: the router as the call leaves it, and what it threw if it threw.
  The assignment to \<^verbatim>\<open>this.params[param]\<close> comes first: under \<^verbatim>\<open>__proto__\<close> it replaces
  the prototype and adds no property; under a new name that the prototype, once a
  function, holds read-only it throws. Then the routes are visited in order; when
  \<^verbatim>\<open>route.param\<close> throws, the routes after that one are left as they were.
\<close>

fun param_routes ::
  "engine \<Rightarrow> string \<Rightarrow> (looked \<Rightarrow> prog) \<Rightarrow> route list \<Rightarrow> route list \<times> error option" where
  "param_routes E p fn [] = ([], None)"
| "param_routes E p fn (r # rs) =
     (case route_param E p fn r of
        (r', Some e) \<Rightarrow> (r' # rs, Some e)
      | (r', None) \<Rightarrow>
          (case param_routes E p fn rs of (rs', e) \<Rightarrow> (r' # rs', e)))"

definition param :: "engine \<Rightarrow> string \<Rightarrow> (looked \<Rightarrow> prog) \<Rightarrow> router \<Rightarrow> router \<times> error option" where
  "param E p fn R =
     (if p \<noteq> ''__proto__'' \<and> map_of (router_params R) p = None \<and> params_proto R
         \<and> function_readonly E p
      then (R, Some (TypeError ''Cannot assign to read only property''))
      else
        (let R1 = (if p = ''__proto__'' then R\<lparr>params_proto := True\<rparr>
                   else R\<lparr>router_params := object_set p fn (router_params R)\<rparr>)
         in case param_routes E p fn (router_routes R) of
              (rs, e) \<Rightarrow> (R1\<lparr>router_routes := rs\<rparr>, e)))"

text \<open>\<^verbatim>\<open>router.route\<close>: the first route of that name.\<close>

definition router_route :: "router \<Rightarrow> string \<Rightarrow> route option" where
  "router_route R name = find (\<lambda>r. route_name r = Some name) (router_routes R)"

text \<open>\<^verbatim>\<open>router.url\<close> returns a string or an \<^verbatim>\<open>Error\<close> object.\<close>

datatype url_result = Url string | ErrorObject error

definition router_url :: "router \<Rightarrow> string \<Rightarrow> url_args \<Rightarrow> url_result" where
  "router_url R name args =
     (case router_route R name of
        Some r \<Rightarrow> Url (route_url r args)
      | None \<Rightarrow> ErrorObject (Error (''No route found for name: '' @ name)))"

text \<open>
  \<^verbatim>\<open>router.match\<close>: the records of the routes that match, in the order of the routes,
  or \<^verbatim>\<open>null\<close> (\<open>Inr None\<close>) when there is none; \<open>Inl\<close> is what \<^verbatim>\<open>route.match\<close> threw.
\<close>

record matched =
  m_params :: jsobj
  m_path :: string
  m_route :: route

fun match_routes :: "engine \<Rightarrow> route list \<Rightarrow> string \<Rightarrow> error + matched list" where
  "match_routes E [] pathname = Inr []"
| "match_routes E (r # rs) pathname =
     (case route_match E r pathname of
        Inl e \<Rightarrow> Inl e
      | Inr None \<Rightarrow> match_routes E rs pathname
      | Inr (Some (ps, p)) \<Rightarrow>
          (case match_routes E rs pathname of
             Inl e \<Rightarrow> Inl e
           | Inr ms \<Rightarrow> Inr (\<lparr>m_params = ps, m_path = p, m_route = r\<rparr> # ms)))"

definition router_match :: "engine \<Rightarrow> router \<Rightarrow> string \<Rightarrow> error + matched list option" where
  "router_match E R pathname =
     (case match_routes E (router_routes R) pathname of
        Inl e \<Rightarrow> Inl e
      | Inr matchedRoutes \<Rightarrow>
          Inr (case matchedRoutes of [] \<Rightarrow> None | _ \<Rightarrow> Some matchedRoutes))"

text \<open>
  The calls a program makes to build its router, each under \<^verbatim>\<open>try\<close>: the router is
  what the call has made of it, also when the call throws.
\<close>

datatype op =
    Register "string option" path_arg "string list option" "mw_arg list"
  | Verb string "string option" path_arg "mw_arg list"
  | Mount "string option" path_arg "mw_arg list"
  | Param string "looked \<Rightarrow> prog"

definition apply_op :: "engine \<Rightarrow> compiler \<Rightarrow> op \<Rightarrow> router \<Rightarrow> router" where
  "apply_op E pathToRegexp call R =
     (case call of
        Register name path methods middleware \<Rightarrow>
          (case register E pathToRegexp name path methods middleware R of
             Inl e \<Rightarrow> R | Inr (r, R') \<Rightarrow> R')
      | Verb method name path middleware \<Rightarrow>
          (case verb E pathToRegexp method name path middleware R of Inl e \<Rightarrow> R | Inr R' \<Rightarrow> R')
      | Mount name path middleware \<Rightarrow>
          (case mount E pathToRegexp name path middleware R of Inl e \<Rightarrow> R | Inr R' \<Rightarrow> R')
      | Param p fn \<Rightarrow> fst (param E p fn R))"

definition apply_ops :: "engine \<Rightarrow> compiler \<Rightarrow> op list \<Rightarrow> router \<Rightarrow> router" where
  "apply_ops E pathToRegexp calls R = fold (apply_op E pathToRegexp) calls R"

section \<open>Dispatch\<close>

text \<open>The entries of the \<^verbatim>\<open>statuses\<close> table the router can look up.\<close>

definition statuses :: "nat \<Rightarrow> string option" where
  "statuses code =
     (if code = 204 then Some ''No Content''
      else if code = 405 then Some ''Method Not Allowed''
      else if code = 501 then Some ''Not Implemented''
      else None)"

definition shouldCallMiddleware :: "string \<Rightarrow> route \<Rightarrow> bool" where
  "shouldCallMiddleware method r = (method \<in> set (route_methods r) \<or> asPrefix r)"

text \<open>The condition under which \<^verbatim>\<open>next\<close> calls the middleware of a route.\<close>

definition invoked :: "string \<Rightarrow> route \<Rightarrow> bool" where
  "invoked method r =
     (shouldCallMiddleware method r \<or> (method = ''HEAD'' \<and> ''GET'' \<in> set (route_methods r)))"

text \<open>
  \<^verbatim>\<open>mergeParams(a, b)\<close>; \<^verbatim>\<open>b\<close> is the array of a match record, never falsy. The
  properties are copied onto a new array, so a copy can throw.
\<close>

definition mergeParams_fun :: "engine \<Rightarrow> jsobj option \<Rightarrow> jsobj \<Rightarrow> error + jsobj" where
  "mergeParams_fun E a b =
     (case assign_all E (case a of None \<Rightarrow> [] | Some obj \<Rightarrow> for_in obj) new_array of
        Inl e \<Rightarrow> Inl e
      | Inr c \<Rightarrow> assign_all E (for_in b) c)"

text \<open>
  \<^verbatim>\<open>yield *done\<close>: \<^verbatim>\<open>done\<close> is the generator of what comes after the router; it runs
  the first time it is delegated to.
\<close>

definition yield_done :: "prog \<Rightarrow> dispatch \<Rightarrow> outcome" where
  "yield_done done s =
     (let s' = s\<lparr>done_runs := Suc (done_runs s)\<rparr>
      in if done_runs s = 0 then fst (run done (Generator Returned) False s') else Returned s')"

text \<open>The block under \<^verbatim>\<open>if (!called && !context.response._explicitStatus)\<close>.\<close>

definition fallback :: "router \<Rightarrow> dispatch \<Rightarrow> dispatch" where
  "fallback R s =
     (if \<not> called s \<and> \<not> explicitStatus (ctx s) then
        (let c1 = (ctx s)\<lparr>statusCode := (if ctx_method (ctx s) = ''OPTIONS'' then 204 else 405)\<rparr>;
             c2 = c1\<lparr>headers := (headers c1)(''Allow'' \<mapsto> join '', '' (object_keys (methodsAvailable s)))\<rparr>;
             c3 = (if ctx_method c2 \<notin> set (router_methods R) then c2\<lparr>statusCode := 501\<rparr> else c2);
             c4 = c3\<lparr>statusMessage := statuses (statusCode c3)\<rparr>
         in s\<lparr>ctx := c4\<rparr>)
      else s)"

text \<open>
  The three pieces of \<^verbatim>\<open>next\<close> that write the shared variables: recording the methods
  of a route that is not called for an \<^verbatim>\<open>OPTIONS\<close> request, replacing the context with
  the route context (the path first; \<^verbatim>\<open>mergeParams\<close> can throw after that), and restoring
  the context.
\<close>

definition record_available :: "string \<Rightarrow> route \<Rightarrow> dispatch \<Rightarrow> dispatch" where
  "record_available method r s =
     (if \<not> shouldCallMiddleware method r \<and> method = ''OPTIONS''
      then s\<lparr>methodsAvailable := fold key_set (route_methods r) (methodsAvailable s)\<rparr>
      else s)"

definition rescope :: "engine \<Rightarrow> router \<Rightarrow> jsobj option \<Rightarrow> matched \<Rightarrow> dispatch \<Rightarrow> outcome" where
  "rescope E R params m s =
     (let s1 = s\<lparr>ctx := (ctx s)\<lparr>ctx_path := m_path m\<rparr>\<rparr>
      in if mergeParams (router_opts R) then
           (case mergeParams_fun E params (m_params m) of
              Inl e \<Rightarrow> Raised e s1
            | Inr c \<Rightarrow> Returned (s1\<lparr>ctx := (ctx s1)\<lparr>ctx_params := Some c\<rparr>\<rparr>))
         else Returned (s1\<lparr>ctx := (ctx s1)\<lparr>ctx_params := Some (m_params m)\<rparr>\<rparr>))"

definition restore :: "jsobj option \<Rightarrow> string \<Rightarrow> dispatch \<Rightarrow> dispatch" where
  "restore prevParams prevPathname s =
     s\<lparr>ctx := (ctx s)\<lparr>ctx_params := prevParams, ctx_path := prevPathname\<rparr>\<rparr>"

text \<open>
  The generator \<^verbatim>\<open>next\<close> of \<^verbatim>\<open>router.middleware\<close>, on the candidates from the cursor
  on; \<open>pathname\<close>, \<open>method\<close> and \<open>params\<close> are the variables of that name, read from the
  context when the dispatch began. The source keeps the cursor in the shared variable
  \<^verbatim>\<open>index\<close> and increments it when a generator \<^verbatim>\<open>next()\<close> starts to run. Such a
  generator is made, not yet started, when the middleware of a candidate is called,
  and is handed to that middleware alone, which can run it once: when it starts,
  \<^verbatim>\<open>index\<close> is still the position of that candidate, so it goes on with the candidates
  after it. Nothing is under \<^verbatim>\<open>try\<close>: when the middleware or \<^verbatim>\<open>done\<close> throws, the
  statements after the \<^verbatim>\<open>yield\<close> do not run.
\<close>

primrec router_next ::
  "engine \<Rightarrow> router \<Rightarrow> prog \<Rightarrow> string \<Rightarrow> string \<Rightarrow> jsobj option \<Rightarrow> matched list \<Rightarrow> dispatch
     \<Rightarrow> outcome" where
  "router_next E R done pathname method params [] =
     (\<lambda>s. let prevParams = ctx_params (ctx s);
               prevPathname = ctx_path (ctx s);
               s1 = s\<lparr>ctx := (ctx s)\<lparr>ctx_path := pathname, ctx_params := params\<rparr>\<rparr>
           in case yield_done done s1 of
                Raised e s2 \<Rightarrow> Raised e s2
              | Returned s2 \<Rightarrow> Returned (restore prevParams prevPathname (fallback R s2)))"
| "router_next E R done pathname method params (m # ms) =
     (\<lambda>s. let prevParams = ctx_params (ctx s);
               prevPathname = ctx_path (ctx s);
               r = m_route m;
               s1 = record_available method r s
           in if invoked method r then
                (case rescope E R params m (s1\<lparr>called := True\<rparr>) of
                   Raised e s2 \<Rightarrow> Raised e s2
                 | Returned s2 \<Rightarrow>
                     (case route_middleware r of
                        None \<Rightarrow> Raised (TypeError ''Cannot read property 'call' of undefined'') s2
                      | Some chain \<Rightarrow>
                          (case run_chain chain (router_next E R done pathname method params ms) s2 of
                             Raised e s3 \<Rightarrow> Raised e s3
                           | Returned s3 \<Rightarrow> Returned (restore prevParams prevPathname s3))))
              else router_next E R done pathname method params ms s1)"

text \<open>
  The generator \<^verbatim>\<open>router.middleware()\<close> returns, run on a context with \<^verbatim>\<open>done\<close> as
  what comes after the router. What \<^verbatim>\<open>router.match\<close> throws, it throws.
\<close>

definition middleware :: "engine \<Rightarrow> router \<Rightarrow> prog \<Rightarrow> koa_context \<Rightarrow> outcome" where
  "middleware E R done c =
     (let s = \<lparr>ctx = c, methodsAvailable = [], called = False, done_runs = 0\<rparr>
      in case router_match E R (ctx_path c) of
           Inl e \<Rightarrow> Raised e s
         | Inr None \<Rightarrow> yield_done done s
         | Inr (Some routes) \<Rightarrow>
             router_next E R done (ctx_path c) (ctx_method c) (ctx_params c) routes s)"


section \<open>A pattern compiler\<close>

text \<open>
  Modelled from the spec: \<^verbatim>\<open>pathToRegexp\<close> (the package path-to-regexp, which is not
  part of the repository), for templates made of literal segments and \<^verbatim>\<open>:name\<close>
  segments. A literal segment matches itself, a \<^verbatim>\<open>:name\<close> segment captures one
  non-empty path segment; without \<open>opt_end\<close> the path may go on after a segment
  boundary; without \<open>opt_strict\<close> one trailing slash is accepted. It serves the examples:
  the theorems on routers hold for every compiler.
\<close>

definition is_placeholder :: "string \<Rightarrow> bool" where
  "is_placeholder seg = (case seg of c # d # r \<Rightarrow> c = CHR '':'' | _ \<Rightarrow> False)"

fun match_segments :: "bool \<Rightarrow> string list \<Rightarrow> string list \<Rightarrow> string option list option" where
  "match_segments sens [] xs = Some []"
| "match_segments sens (p # ps) [] = None"
| "match_segments sens (p # ps) (x # xs) =
     (if is_placeholder p then
        (if x = [] then None else map_option ((#) (Some x)) (match_segments sens ps xs))
      else if (if sens then p = x else toUpperCase p = toUpperCase x)
      then match_segments sens ps xs
      else None)"

definition pathToRegexp :: compiler where
  "pathToRegexp pat os =
     (let ps = split (CHR ''/'') pat
      in (map (\<lambda>seg. \<lparr>key_name = tl seg, key_optional = False\<rparr>) (filter is_placeholder ps),
          (\<lambda>path.
             let xs = split (CHR ''/'') path
             in case match_segments (opt_sensitive os) ps xs of
                  None \<Rightarrow> None
                | Some caps \<Rightarrow>
                    (let consumed = join ''/'' (take (length ps) xs);
                         rest = drop (length ps) xs
                     in if rest = [] then Some (consumed, caps)
                        else if \<not> opt_end os then Some (consumed, caps)
                        else if \<not> opt_strict os \<and> rest = [[]] then Some (consumed @ ''/'', caps)
                        else None))))"

section \<open>Notions the properties are stated with\<close>

text \<open>The variables of a dispatch other than the context.\<close>

definition locals :: "dispatch \<Rightarrow> string list \<times> bool \<times> nat" where
  "locals s = (methodsAvailable s, called s, done_runs s)"

text \<open>
  The state in which \<^verbatim>\<open>router.middleware\<close> starts a dispatch, and the candidates of a
  path (none when nothing matches or the match throws).
\<close>

definition start :: "koa_context \<Rightarrow> dispatch" where
  "start c = \<lparr>ctx = c, methodsAvailable = [], called = False, done_runs = 0\<rparr>"

definition candidates :: "engine \<Rightarrow> router \<Rightarrow> string \<Rightarrow> matched list" where
  "candidates E R path = (case router_match E R path of Inr (Some ms) \<Rightarrow> ms | _ \<Rightarrow> [])"

text \<open>
  What comes after the router, run on a context by itself: it sees and changes the
  context only.
\<close>

definition run_downstream :: "prog \<Rightarrow> koa_context \<Rightarrow> outcome" where
  "run_downstream done c =
     fst (run done (Generator Returned) False
            \<lparr>ctx = c, methodsAvailable = [], called = False, done_runs = 0\<rparr>)"

definition with_locals :: "string list \<Rightarrow> bool \<Rightarrow> nat \<Rightarrow> dispatch \<Rightarrow> dispatch" where
  "with_locals ma ca n s = s\<lparr>methodsAvailable := ma, called := ca, done_runs := n\<rparr>"

definition lift :: "(dispatch \<Rightarrow> dispatch) \<Rightarrow> outcome \<Rightarrow> outcome" where
  "lift g out = (case out of Returned s \<Rightarrow> Returned (g s) | Raised e s \<Rightarrow> Raised e (g s))"

text \<open>
  The methods \<^verbatim>\<open>next\<close> records while it steps over candidates it does not call: those
  of the candidates, for an \<^verbatim>\<open>OPTIONS\<close> request only.
\<close>

definition collect :: "string \<Rightarrow> matched list \<Rightarrow> string list \<Rightarrow> string list" where
  "collect method cands ma =
     (if method = ''OPTIONS''
      then fold key_set (concat (map (\<lambda>m. route_methods (m_route m)) cands)) ma
      else ma)"

subsection \<open>The chain of a route with parameter hooks\<close>

text \<open>The wrappers a route holds once every hook of the router is attached to it.\<close>

definition hook_table :: "router \<Rightarrow> string \<rightharpoonup> handler" where
  "hook_table R = (\<lambda>name. map_option (ParamHook name) (map_of (router_params R) name))"

text \<open>
  The chain of a route as the specification words it: the hooks of the router for the
  parameter names of the pattern, in the order of the pattern, then the handlers the
  route was made with.
\<close>

definition expected_chain :: "router \<Rightarrow> route \<Rightarrow> handler list" where
  "expected_chain R r =
     List.map_filter (\<lambda>k. map_option (ParamHook (key_name k)) (map_of (router_params R) (key_name k)))
       (route_params r) @ fns_middleware r"

text \<open>
  What the lookup of a hook finds for a key while the prototype is \<^verbatim>\<open>Object.prototype\<close>:
  the hook of that name, or else the member of \<^verbatim>\<open>Object.prototype\<close> of that name.
\<close>

definition found_for :: "(string \<rightharpoonup> handler) \<Rightarrow> key \<Rightarrow> handler option" where
  "found_for own k =
     (case own (key_name k) of
        Some h \<Rightarrow> Some h
      | None \<Rightarrow> map_option Inherited (object_member (key_name k)))"

text \<open>The chain of a route as the lookups make it.\<close>

definition found_chain :: "router \<Rightarrow> route \<Rightarrow> handler list" where
  "found_chain R r = List.map_filter (found_for (hook_table R)) (route_params r) @ fns_middleware r"

text \<open>The field \<^verbatim>\<open>middleware\<close> as the constructor leaves it.\<close>

definition constructed_middleware :: "handler list \<Rightarrow> handler list option" where
  "constructed_middleware hs =
     (if length hs > 1 then Some hs else (case hs of [] \<Rightarrow> None | h # _ \<Rightarrow> Some [h]))"

text \<open>A route carries the hooks of the router exactly.\<close>

definition hooks_attached :: "router \<Rightarrow> route \<Rightarrow> bool" where
  "hooks_attached R r \<longleftrightarrow>
     fns_proto r = None \<and> fns_params r = hook_table R \<and>
     route_middleware r =
       (if router_params R = [] then constructed_middleware (fns_middleware r)
        else Some (found_chain R r))"

text \<open>A call other than the registration of a hook under \<^verbatim>\<open>__proto__\<close>.\<close>

definition plain_op :: "op \<Rightarrow> bool" where
  "plain_op call = (case call of Param p fn \<Rightarrow> p \<noteq> ''__proto__'' | _ \<Rightarrow> True)"

text \<open>No prototype has been replaced, and every route carries the hooks of the router.\<close>

definition hooks_invariant :: "router \<Rightarrow> bool" where
  "hooks_invariant R \<longleftrightarrow>
     \<not> params_proto R \<and> ''__proto__'' \<notin> fst ` set (router_params R) \<and>
     (\<forall>r \<in> set (router_routes R). hooks_attached R r)"

subsection \<open>A middleware that delegates to its continuation\<close>

text \<open>
  Whether a generator function, started in state \<open>s\<close>, comes to delegate to its
  continuation, and the state in which it first does. A block under \<^verbatim>\<open>try\<close> that ends
  without having delegated has run the same whatever the continuation is.
\<close>

primrec prog_calls :: "prog \<Rightarrow> dispatch \<Rightarrow> dispatch option" where
  "prog_calls Return s = None"
| "prog_calls (Throw e) s = None"
| "prog_calls (Modify f p) s = prog_calls p (s\<lparr>ctx := f (ctx s)\<rparr>)"
| "prog_calls (Choose f) s = prog_calls (f (ctx s)) s"
| "prog_calls (YieldNext p) s = Some s"
| "prog_calls (Try b h p) s =
     (case prog_calls b s of
        Some t \<Rightarrow> Some t
      | None \<Rightarrow>
          (case fst (run b (Value False) False s) of
             Returned s' \<Rightarrow> prog_calls p s'
           | Raised e s' \<Rightarrow>
               (case prog_calls (h e) s' of
                  Some t \<Rightarrow> Some t
                | None \<Rightarrow>
                    (case fst (run (h e) (Value False) False s') of
                       Returned s'' \<Rightarrow> prog_calls p s''
                     | Raised e' s'' \<Rightarrow> None))))"

text \<open>The same for the functions of a list, each the continuation of the one before.\<close>

fun progs_call :: "prog list \<Rightarrow> dispatch \<Rightarrow> dispatch option" where
  "progs_call [] s = Some s"
| "progs_call (p # ps) s =
     (case prog_calls p s of
        None \<Rightarrow> None
      | Some t \<Rightarrow> progs_call ps t)"

text \<open>
  The same for what a route holds as middleware. A hook reads \<^verbatim>\<open>this.params\<close> first. Of
  the members of a prototype, the one that returns \<^verbatim>\<open>next\<close> passes it on as it is.
\<close>

definition handler_calls :: "handler \<Rightarrow> dispatch \<Rightarrow> dispatch option" where
  "handler_calls h s =
     (case h of
        Gen p \<Rightarrow> prog_calls p s
      | ParamHook name fn \<Rightarrow>
          (case ctx_params (ctx s) of
             None \<Rightarrow> None
           | Some a \<Rightarrow> prog_calls (fn (obj_get a name)) s)
      | Composed ps \<Rightarrow> progs_call ps s
      | Inherited b \<Rightarrow> (case b of ReturnsNext \<Rightarrow> Some s | _ \<Rightarrow> None))"

fun handlers_call :: "handler list \<Rightarrow> dispatch \<Rightarrow> dispatch option" where
  "handlers_call [] s = Some s"
| "handlers_call (h # hs) s =
     (case handler_calls h s of
        None \<Rightarrow> None
      | Some t \<Rightarrow> handlers_call hs t)"

text \<open>A chain one element of which throws when \<^verbatim>\<open>compose\<close> calls it runs nothing.\<close>

definition call_throws :: "handler \<Rightarrow> bool" where
  "call_throws h = (case h of Inherited (CallThrows e) \<Rightarrow> True | _ \<Rightarrow> False)"

text \<open>
  Whether the middleware of a route, started in state \<open>s\<close>, comes to delegate to the
  \<^verbatim>\<open>next\<close> it was called with, and the state in which it does.
\<close>

definition chain_calls :: "handler list \<Rightarrow> dispatch \<Rightarrow> dispatch option" where
  "chain_calls chain s = (if list_ex call_throws chain then None else handlers_call chain s)"

text \<open>
  Whether the walk over the candidates, from state \<open>s\<close>, reaches the end of the list:
  every candidate that is called is rescoped without a throw and has middleware that
  comes to delegate to its continuation.
\<close>

primrec reaches_end ::
  "engine \<Rightarrow> router \<Rightarrow> string \<Rightarrow> jsobj option \<Rightarrow> matched list \<Rightarrow> dispatch \<Rightarrow> bool" where
  "reaches_end E R method params [] = (\<lambda>s. True)"
| "reaches_end E R method params (m # ms) =
     (\<lambda>s. let s1 = record_available method (m_route m) s
           in if invoked method (m_route m) then
                (case rescope E R params m (s1\<lparr>called := True\<rparr>) of
                   Raised e s2 \<Rightarrow> False
                 | Returned s2 \<Rightarrow>
                     (case route_middleware (m_route m) of
                        None \<Rightarrow> False
                      | Some chain \<Rightarrow>
                          (case chain_calls chain s2 of
                             None \<Rightarrow> False
                           | Some t \<Rightarrow> reaches_end E R method params ms t)))
              else reaches_end E R method params ms s1)"

section \<open>Examples of routers and requests\<close>

text \<open>
  An engine for the examples: it takes a string of decimal digits (the empty string
  is 0), and no other string, for a number. None of the examples assigns anything else
  than \<^verbatim>\<open>100%\<close> to a \<^verbatim>\<open>length\<close>, or replaces a prototype by a function.
\<close>

definition example_engine :: engine where
  "example_engine =
     \<lparr>string_to_length =
        (\<lambda>t. if list_all (\<lambda>c. c \<in> set ''0123456789'') t \<and> int (number_of t) < 4294967296
             then Some (number_of t) else None),
      function_member = (\<lambda>name. Absent),
      function_readonly = (\<lambda>name. False)\<rparr>"

definition default_opts :: opts where
  "default_opts = \<lparr>caseSensitive = False, strict = False, mergeParams = False\<rparr>"

text \<open>A request as koa hands it to the first middleware: status 404, nothing written.\<close>

definition request :: "string \<Rightarrow> string \<Rightarrow> koa_context" where
  "request method path =
     \<lparr>ctx_path = path, ctx_params = None, ctx_method = method, explicitStatus = False,
      statusCode = 404, statusMessage = None, headers = Map.empty, body = None\<rparr>"

text \<open>
  \<^verbatim>\<open>app.get("/user", function *() { }); app.post("/user", function *() { });\<close>
\<close>

definition user_router :: router where
  "user_router =
     apply_ops example_engine pathToRegexp
       [Verb ''get'' None (StringPath ''/user'') [FnArg Return],
        Verb ''post'' None (StringPath ''/user'') [FnArg Return]]
       (Router default_opts)"

text \<open>
  A prefix route: \<^verbatim>\<open>router.register("/first/:id", [], function *(next) { yield *next; })\<close>.
\<close>

definition first_router :: router where
  "first_router =
     apply_ops example_engine pathToRegexp
       [Register None (StringPath ''/first/:id'') (Some []) [FnArg (YieldNext Return)]]
       (Router default_opts)"

definition first_route :: route where
  "first_route = hd (router_routes first_router)"

text \<open>A name for a handler: the parameter name for a hook.\<close>

definition handler_label :: "handler \<Rightarrow> string" where
  "handler_label h =
     (case h of
        Gen p \<Rightarrow> ''handler''
      | ParamHook name fn \<Rightarrow> name
      | Composed ps \<Rightarrow> ''app''
      | Inherited b \<Rightarrow> ''inherited'')"

text \<open>
  A router with a hook before the route is registered and three after, \<^verbatim>\<open>user\<close>
  before \<^verbatim>\<open>first\<close>.
\<close>

definition hooked_router :: router where
  "hooked_router =
     apply_ops example_engine pathToRegexp
       [Param ''early'' (\<lambda>v. YieldNext Return),
        Verb ''get'' None (StringPath ''/:first/users/:user'') [FnArg Return],
        Param ''user'' (\<lambda>v. YieldNext Return),
        Param ''first'' (\<lambda>v. YieldNext Return),
        Param ''other'' (\<lambda>v. YieldNext Return)]
       (Router default_opts)"

text \<open>
  A route whose pattern has a parameter named like a member of \<^verbatim>\<open>Object.prototype\<close>, on
  a router with a hook for another name:
  \<^verbatim>\<open>app.get("/:toString", function *() { this.body = "ok"; }); app.param("id", hook);\<close>
\<close>

definition toString_router :: router where
  "toString_router =
     apply_ops example_engine pathToRegexp
       [Verb ''get'' None (StringPath ''/:toString'')
          [FnArg (Modify (\<lambda>c. c\<lparr>body := Some ''ok''\<rparr>) Return)],
        Param ''id'' (\<lambda>v. YieldNext Return)]
       (Router default_opts)"

text \<open>
  A route with a hook, both delegating to their continuation, the handler after a
  \<^verbatim>\<open>try\<close> block:
  \<^verbatim>\<open>app.param("id", function *(id, next) { yield *next; });\<close>
  \<^verbatim>\<open>app.get("/users/:id", function *(next) { try { } catch (e) { } yield *next; });\<close>
\<close>

definition delegating_router :: router where
  "delegating_router =
     apply_ops example_engine pathToRegexp
       [Param ''id'' (\<lambda>v. YieldNext Return),
        Verb ''get'' None (StringPath ''/users/:id'')
          [FnArg (Try Return (\<lambda>e. Return) (YieldNext Return))]]
       (Router default_opts)"

text \<open>
  \<^verbatim>\<open>app.get("books", "/:category/:title", function *(next) { })\<close>
\<close>

definition books_router :: router where
  "books_router =
     apply_ops example_engine pathToRegexp
       [Verb ''get'' (Some ''books'') (StringPath ''/:category/:title'') [FnArg Return]]
       (Router default_opts)"

text \<open>
  A route whose pattern has a parameter named \<^verbatim>\<open>length\<close>:
  \<^verbatim>\<open>app.get("/:length", function *() { })\<close>
\<close>

definition length_router :: router where
  "length_router =
     apply_ops example_engine pathToRegexp
       [Verb ''get'' None (StringPath ''/:length'') [FnArg Return]]
       (Router default_opts)"

text \<open>
  A router with \<^verbatim>\<open>mergeParams\<close> on, and a request whose \<^verbatim>\<open>params\<close> an earlier middleware
  has set to \<^verbatim>\<open>{length: "long"}\<close>.
\<close>

definition merging_router :: router where
  "merging_router =
     apply_ops example_engine pathToRegexp
       [Verb ''get'' None (StringPath ''/user'') [FnArg Return]]
       (Router \<lparr>caseSensitive = False, strict = False, mergeParams = True\<rparr>)"

definition request_with_length :: koa_context where
  "request_with_length =
     (request ''GET'' ''/user'')
       \<lparr>ctx_params := Some \<lparr>is_array = False, props = [(''length'', Str ''long'')], alen = 0\<rparr>\<rparr>"

text \<open>A route whose handler throws.\<close>

definition throwing_router :: router where
  "throwing_router =
     apply_ops example_engine pathToRegexp
       [Verb ''get'' None (StringPath ''/user'') [FnArg (Throw (Thrown ''boom''))]]
       (Router default_opts)"

text \<open>
  A probe around a route whose handler throws: the prefix route \<^verbatim>\<open>/api\<close> catches what
  its continuation throws and writes the path it sees then into the body.
\<close>

definition probe_router :: router where
  "probe_router =
     apply_ops example_engine pathToRegexp
       [Register None (StringPath ''/api'') (Some [])
          [FnArg (Try (YieldNext Return)
                      (\<lambda>e. Modify (\<lambda>c. c\<lparr>body := Some (ctx_path c)\<rparr>) Return)
                      Return)],
        Verb ''get'' None (StringPath ''/api/user'') [FnArg (Throw (Thrown ''boom''))]]
       (Router default_opts)"

section \<open>Properties of \<^verbatim>\<open>route.match\<close>\<close>

lemma rest_path_shape: "\<exists>t. rest_path matched path = CHR ''/'' # t"
  by (cases "drop (length matched) path") (auto simp: rest_path_def Let_def)

lemma route_match_Some:
  "route_match E r path = Inr (Some (ps, rest)) \<Longrightarrow>
   \<exists>matched captures. route_regexp r path = Some (matched, captures) \<and> rest = rest_path matched path"
  by (auto simp: route_match_def split: option.splits sum.splits)

text \<open>
  C7. Whenever \<^verbatim>\<open>route.match\<close> succeeds, the path of the match record starts with a
  slash or is empty; it is the input path without its first characters, as many as the
  matched text has, with a slash put in front where it did not start with one.
\<close>

theorem match_rest_starts_with_slash:
  assumes "route_match E r path = Inr (Some (ps, rest))"
  shows "(rest = [] \<or> (\<exists>t. rest = CHR ''/'' # t)) \<and>
         (\<exists>matched captures. route_regexp r path = Some (matched, captures) \<and>
            (rest = drop (length matched) path \<or> rest = CHR ''/'' # drop (length matched) path))"
proof -
  from assms obtain matched captures where
    re: "route_regexp r path = Some (matched, captures)" and rest: "rest = rest_path matched path"
    using route_match_Some by blast
  from rest rest_path_shape have "\<exists>t. rest = CHR ''/'' # t" by simp
  moreover from rest have "rest = drop (length matched) path \<or> rest = CHR ''/'' # drop (length matched) path"
    by (simp add: rest_path_def Let_def)
  ultimately show ?thesis using re by blast
qed

theorem match_rest_starts_with_slash_witness:
  "\<exists>ps. route_match example_engine first_route ''/first/second/third'' = Inr (Some (ps, ''/third'')) \<and>
     (''/third'' = [] \<or> (\<exists>t. ''/third'' = CHR ''/'' # t))"
proof -
  have "map_sum id (map_option snd) (route_match example_engine first_route ''/first/second/third'')
          = Inr (Some ''/third'')"
    by code_simp
  then obtain ps where
    h: "route_match example_engine first_route ''/first/second/third'' = Inr (Some (ps, ''/third''))"
    by (cases "route_match example_engine first_route ''/first/second/third''") auto
  from match_rest_starts_with_slash [OF h] h show ?thesis by blast
qed

text \<open>
  What \<^verbatim>\<open>route.match\<close> can throw, and what it keeps. Only the assignment under a key
  named \<^verbatim>\<open>length\<close> throws; without such a key a match record is returned whenever the
  regular expression matches, and a capture that does not decode is in it as it was
  captured: under its position when the pattern has no keys, else under the name of
  its key, where no later capture is stored under the same name.
\<close>

lemma of_char_digit_char: "d < 10 \<Longrightarrow> (of_char (digit_char d) :: nat) = 48 + d"
  by (auto simp: digit_char_def eval_nat_numeral less_Suc_eq)

lemma last_digits_of: "last (digits_of fuel n) = digit_char (n mod 10)"
  by (cases fuel) simp_all

lemma index_key_not_special: "index_key i \<noteq> ''length'' \<and> index_key i \<noteq> ''__proto__''"
proof -
  have "(of_char (last (index_key i)) :: nat) = 48 + i mod 10"
    by (simp add: index_key_def last_digits_of of_char_digit_char)
  then have "(of_char (last (index_key i)) :: nat) < 58" by simp
  moreover have "(of_char (last ''length'') :: nat) = 104" "(of_char (last ''__proto__'') :: nat) = 95"
    by simp_all
  ultimately show ?thesis by auto
qed

lemma array_assign_plain:
  "k \<noteq> ''length'' \<Longrightarrow> k \<noteq> ''__proto__'' \<Longrightarrow>
   \<exists>a'. array_assign E k v a = Inr a' \<and> is_array a' = is_array a \<and>
         map_of (props a') = (map_of (props a))(k \<mapsto> v)"
proof -
  have "map_of (object_set k v ps) = (map_of ps)(k \<mapsto> v)" for ps :: "(string \<times> pval) list"
    by (induction ps) (auto simp: fun_eq_iff)
  then show "k \<noteq> ''length'' \<Longrightarrow> k \<noteq> ''__proto__'' \<Longrightarrow> ?thesis"
    by (simp add: array_assign_def)
qed

lemma array_assign_throws:
  "array_assign E k v a = Inl e \<Longrightarrow> e = RangeError ''Invalid array length'' \<and> k = ''length''"
  by (auto simp: array_assign_def split: if_splits option.splits)

lemma named_params_throws:
  "named_params E ks cs a = Inl e \<Longrightarrow>
   e = RangeError ''Invalid array length'' \<and> ''length'' \<in> key_name ` set ks"
proof (induction E ks cs a rule: named_params.induct)
  case (3 E k ks c cs a)
  show ?case
  proof (cases "array_assign E (key_name k) (capture_value c) a")
    case (Inl e')
    with "3.prems" array_assign_throws [OF Inl] show ?thesis by simp
  next
    case (Inr a')
    with "3.prems" have "named_params E ks cs a' = Inl e" by simp
    from "3.IH" [OF Inr this] show ?thesis by simp
  qed
qed simp_all

lemma indexed_params_returns: "\<exists>a'. indexed_params E i cs a = Inr a'"
proof (induction cs arbitrary: i a)
  case Nil
  show ?case by simp
next
  case (Cons c cs)
  from array_assign_plain [of "index_key i" E "capture_value c" a] index_key_not_special [of i]
  obtain a' where "array_assign E (index_key i) (capture_value c) a = Inr a'" by blast
  with Cons [of "Suc i" a'] show ?case by simp
qed

lemma route_match_throws:
  assumes "route_match E r path = Inl e"
  shows "e = RangeError ''Invalid array length'' \<and> ''length'' \<in> key_name ` set (route_params r)"
proof (cases "route_regexp r path")
  case None
  with assms show ?thesis by (simp add: route_match_def)
next
  case (Some mc)
  obtain matched captures where mc: "mc = (matched, captures)" by (cases mc)
  show ?thesis
  proof (cases "route_params r = []")
    case True
    with assms Some mc indexed_params_returns [of E 0 captures new_array] show ?thesis
      by (auto simp: route_match_def split: sum.splits)
  next
    case False
    with assms Some mc have "named_params E (route_params r) captures new_array = Inl e"
      by (auto simp: route_match_def split: sum.splits)
    then show ?thesis by (rule named_params_throws)
  qed
qed

lemma route_match_returns:
  assumes "''length'' \<notin> key_name ` set (route_params r)"
    and "route_regexp r path = Some (matched, captures)"
  shows "\<exists>ps. route_match E r path = Inr (Some (ps, rest_path matched path))"
proof (cases "route_match E r path")
  case (Inl e)
  with route_match_throws [OF Inl] assms(1) show ?thesis by simp
next
  case (Inr res)
  with assms(2) show ?thesis by (auto simp: route_match_def split: sum.splits)
qed

lemma obj_get_own:
  "k \<noteq> ''length'' \<Longrightarrow> map_of (props a) k = Some v \<Longrightarrow> obj_get a k = Own v"
  by (simp add: obj_get_def)

lemma named_params_untouched:
  "named_params E ks cs a = Inr a' \<Longrightarrow> ''length'' \<notin> key_name ` set ks \<Longrightarrow>
   (\<forall>j. j < length ks \<and> j < length cs \<longrightarrow> key_name (ks ! j) \<noteq> name) \<Longrightarrow>
   map_of (props a') name = map_of (props a) name"
proof (induction E ks cs a rule: named_params.induct)
  case (3 E k ks c cs a)
  from "3.prems"(3) have k: "key_name k \<noteq> name" by auto
  from "3.prems"(3) have later: "\<forall>j. j < length ks \<and> j < length cs \<longrightarrow> key_name (ks ! j) \<noteq> name"
    by auto
  from "3.prems" obtain a1 where a1: "array_assign E (key_name k) (capture_value c) a = Inr a1"
    and rest: "named_params E ks cs a1 = Inr a'"
    by (auto split: sum.splits)
  have "map_of (props a1) name = map_of (props a) name"
  proof (cases "key_name k = ''__proto__''")
    case True
    with a1 show ?thesis by (simp add: array_assign_def)
  next
    case False
    with "3.prems"(2) array_assign_plain [of "key_name k" E "capture_value c" a] a1 k
    show ?thesis by auto
  qed
  moreover from "3.prems"(2) have "''length'' \<notin> key_name ` set ks" by simp
  from "3.IH" [OF a1 rest this later] have "map_of (props a') name = map_of (props a1) name" .
  ultimately show ?case by simp
qed simp_all

lemma named_params_last:
  "named_params E ks cs a = Inr a' \<Longrightarrow> ''length'' \<notin> key_name ` set ks \<Longrightarrow>
   i < length ks \<Longrightarrow> i < length cs \<Longrightarrow> key_name (ks ! i) \<noteq> ''__proto__'' \<Longrightarrow>
   (\<forall>j. i < j \<and> j < length ks \<and> j < length cs \<longrightarrow> key_name (ks ! j) \<noteq> key_name (ks ! i)) \<Longrightarrow>
   map_of (props a') (key_name (ks ! i)) = Some (capture_value (cs ! i))"
proof (induction E ks cs a arbitrary: i rule: named_params.induct)
  case (3 E k ks c cs a)
  from "3.prems" obtain a1 where a1: "array_assign E (key_name k) (capture_value c) a = Inr a1"
    and rest: "named_params E ks cs a1 = Inr a'"
    by (auto split: sum.splits)
  from "3.prems"(2) have nl: "''length'' \<notin> key_name ` set ks" by simp
  show ?case
  proof (cases i)
    case 0
    with "3.prems" have np: "key_name k \<noteq> ''__proto__''" "key_name k \<noteq> ''length''" by auto
    with array_assign_plain [of "key_name k" E "capture_value c" a] a1
    have m1: "map_of (props a1) = (map_of (props a))(key_name k \<mapsto> capture_value c)" by auto
    have "\<forall>j. j < length ks \<and> j < length cs \<longrightarrow> key_name (ks ! j) \<noteq> key_name k"
    proof (intro allI impI)
      fix j assume "j < length ks \<and> j < length cs"
      with "3.prems"(6) [rule_format, of "Suc j"] 0 show "key_name (ks ! j) \<noteq> key_name k" by simp
    qed
    from named_params_untouched [OF rest nl this] m1 0 show ?thesis by simp
  next
    case (Suc i')
    have "\<forall>j. i' < j \<and> j < length ks \<and> j < length cs \<longrightarrow> key_name (ks ! j) \<noteq> key_name (ks ! i')"
    proof (intro allI impI)
      fix j assume "i' < j \<and> j < length ks \<and> j < length cs"
      with "3.prems"(6) [rule_format, of "Suc j"] Suc show "key_name (ks ! j) \<noteq> key_name (ks ! i')"
        by simp
    qed
    with "3.IH" [OF a1 rest nl, of i'] "3.prems" Suc show ?thesis by simp
  qed
qed simp_all

lemma number_of_snoc: "number_of (xs @ [c]) = 10 * number_of xs + ((of_char c :: nat) - 48)"
  by (simp add: number_of_def)

lemma number_of_digits_of: "n \<le> fuel \<Longrightarrow> number_of (digits_of fuel n) = n"
proof (induction fuel arbitrary: n)
  case 0
  then show ?case by (simp add: number_of_def of_char_digit_char)
next
  case (Suc fuel)
  show ?case
  proof (cases "n < 10")
    case True
    then show ?thesis by (simp add: number_of_def of_char_digit_char)
  next
    case False
    with Suc.prems have "n div 10 \<le> fuel" by simp
    from Suc.IH [OF this] False show ?thesis
      by (simp add: number_of_snoc of_char_digit_char)
  qed
qed

lemma index_key_inj: "index_key i = index_key j \<Longrightarrow> i = j"
  by (metis index_key_def number_of_digits_of order_refl)

lemma indexed_params_other:
  "indexed_params E i cs a = Inr a' \<Longrightarrow> j < i \<Longrightarrow>
   map_of (props a') (index_key j) = map_of (props a) (index_key j)"
proof (induction cs arbitrary: i a)
  case Nil
  then show ?case by simp
next
  case (Cons c cs)
  from array_assign_plain [of "index_key i" E "capture_value c" a] index_key_not_special [of i]
  obtain a1 where a1: "array_assign E (index_key i) (capture_value c) a = Inr a1"
    "map_of (props a1) = (map_of (props a))(index_key i \<mapsto> capture_value c)"
    by blast
  with Cons.prems have rest: "indexed_params E (Suc i) cs a1 = Inr a'" by simp
  have "index_key i \<noteq> index_key j"
    using Cons.prems index_key_inj [of i j] by auto
  with Cons.IH [OF rest] Cons.prems a1(2) show ?case by simp
qed

lemma indexed_params_lookup:
  "indexed_params E i cs a = Inr a' \<Longrightarrow> j < length cs \<Longrightarrow>
   map_of (props a') (index_key (i + j)) = Some (capture_value (cs ! j))"
proof (induction cs arbitrary: i j a)
  case Nil
  then show ?case by simp
next
  case (Cons c cs)
  from array_assign_plain [of "index_key i" E "capture_value c" a] index_key_not_special [of i]
  obtain a1 where a1: "array_assign E (index_key i) (capture_value c) a = Inr a1"
    "map_of (props a1) = (map_of (props a))(index_key i \<mapsto> capture_value c)"
    by blast
  with Cons.prems have rest: "indexed_params E (Suc i) cs a1 = Inr a'" by simp
  show ?case
  proof (cases j)
    case 0
    with indexed_params_other [OF rest, of i] a1(2) show ?thesis by simp
  next
    case (Suc k)
    with Cons.prems have "k < length cs" by simp
    from Cons.IH [OF rest this] Suc show ?thesis by simp
  qed
qed

lemma decode_failure_nonempty: "decodeURIComponent c = Inl e \<Longrightarrow> c \<noteq> []"
  by (auto simp: decodeURIComponent_def)

lemma safeDecode_failure: "decodeURIComponent c = Inl e \<Longrightarrow> safeDecodeURIComponent c = c"
  by (simp add: safeDecodeURIComponent_def)

lemma capture_value_failure:
  "decodeURIComponent c = Inl e \<Longrightarrow> capture_value (Some c) = Str c"
  using decode_failure_nonempty safeDecode_failure by (simp add: capture_value_def)

lemma raw_text_kept:
  assumes "route_regexp r path = Some (matched, captures)"
    and "''length'' \<notin> key_name ` set (route_params r)"
    and "i < length captures" and "captures ! i = Some c" and "decodeURIComponent c = Inl e"
  shows "\<exists>ps. route_match E r path = Inr (Some (ps, rest_path matched path)) \<and>
           (route_params r = [] \<longrightarrow> obj_get ps (index_key i) = Own (Str c)) \<and>
           (i < length (route_params r) \<and> key_name (route_params r ! i) \<noteq> ''__proto__'' \<and>
            (\<forall>j. i < j \<and> j < length (route_params r) \<and> j < length captures \<longrightarrow>
                 key_name (route_params r ! j) \<noteq> key_name (route_params r ! i)) \<longrightarrow>
              obj_get ps (key_name (route_params r ! i)) = Own (Str c))"
proof -
  from route_match_returns [OF assms(2,1), of E] obtain ps where
    ps: "route_match E r path = Inr (Some (ps, rest_path matched path))" by blast
  have cv: "capture_value (captures ! i) = Str c"
    using assms(4,5) by (simp add: capture_value_failure)
  show ?thesis
  proof (cases "route_params r = []")
    case True
    with ps assms(1) have "indexed_params E 0 captures new_array = Inr ps"
      by (auto simp: route_match_def split: sum.splits)
    from indexed_params_lookup [OF this assms(3)] cv
    have "map_of (props ps) (index_key i) = Some (Str c)" by simp
    with index_key_not_special [of i] have "obj_get ps (index_key i) = Own (Str c)"
      by (simp add: obj_get_own)
    with ps True show ?thesis by auto
  next
    case False
    with ps assms(1) have np: "named_params E (route_params r) captures new_array = Inr ps"
      by (auto simp: route_match_def split: sum.splits)
    have "i < length (route_params r) \<and> key_name (route_params r ! i) \<noteq> ''__proto__'' \<and>
            (\<forall>j. i < j \<and> j < length (route_params r) \<and> j < length captures \<longrightarrow>
                 key_name (route_params r ! j) \<noteq> key_name (route_params r ! i)) \<longrightarrow>
            obj_get ps (key_name (route_params r ! i)) = Own (Str c)"
    proof
      assume a: "i < length (route_params r) \<and> key_name (route_params r ! i) \<noteq> ''__proto__'' \<and>
            (\<forall>j. i < j \<and> j < length (route_params r) \<and> j < length captures \<longrightarrow>
                 key_name (route_params r ! j) \<noteq> key_name (route_params r ! i))"
      then have "key_name (route_params r ! i) \<in> key_name ` set (route_params r)"
        by (metis imageI nth_mem)
      with assms(2) have nl: "key_name (route_params r ! i) \<noteq> ''length''" by auto
      from a named_params_last [OF np assms(2), of i] assms(3) cv
      have "map_of (props ps) (key_name (route_params r ! i)) = Some (Str c)" by simp
      with nl show "obj_get ps (key_name (route_params r ! i)) = Own (Str c)"
        by (simp add: obj_get_own)
    qed
    with ps False show ?thesis by auto
  qed
qed

text \<open>
  C8. The text \<^verbatim>\<open>100%\<close> does not decode, and \<^verbatim>\<open>safeDecodeURIComponent\<close> returns it as it
  came. On the route \<^verbatim>\<open>/:category/:title\<close> the path \<^verbatim>\<open>/100%/101%\<close> matches and the
  parameters hold the two texts as they were captured. On the route \<^verbatim>\<open>/:length\<close> the
  path \<^verbatim>\<open>/100%\<close> is matched by the regular expression with the capture \<^verbatim>\<open>100%\<close>, and
  \<^verbatim>\<open>route.match\<close> throws \<^verbatim>\<open>RangeError\<close>: the raw text is assigned to the \<^verbatim>\<open>length\<close> of the
  array \<^verbatim>\<open>params\<close>. The dispatch of \<^verbatim>\<open>GET /100%\<close> throws it too.
\<close>

theorem raw_text_under_length_key_throws:
  "decodeURIComponent ''100%'' = Inl URIError \<and>
   safeDecodeURIComponent ''100%'' = ''100%'' \<and>
   map_sum id (map_option (\<lambda>(ps, rest). props ps))
     (route_match example_engine (hd (router_routes books_router)) ''/100%/101%'')
     = Inr (Some [(''category'', Str ''100%''), (''title'', Str ''101%'')]) \<and>
   map key_name (route_params (hd (router_routes length_router))) = [''length''] \<and>
   route_regexp (hd (router_routes length_router)) ''/100%'' = Some (''/100%'', [Some ''100%'']) \<and>
   route_match example_engine (hd (router_routes length_router)) ''/100%''
     = Inl (RangeError ''Invalid array length'') \<and>
   (case middleware example_engine length_router Return (request ''GET'' ''/100%'') of
      Returned s \<Rightarrow> False
    | Raised e s \<Rightarrow> e = RangeError ''Invalid array length'')"
  by code_simp

section \<open>Properties of the registration surface\<close>

lemma add_methods_mono: "set known \<subseteq> set (add_methods ms known)"
  unfolding add_methods_def
  by (induction ms arbitrary: known) (auto, force+)

lemma register_methods_mono:
  "register E C name path methods mw R = Inr (r, R') \<Longrightarrow>
   set (router_methods R) \<subseteq> set (router_methods R')"
proof -
  assume "register E C name path methods mw R = Inr (r, R')"
  then have "router_methods R' = add_methods (route_methods r) (router_methods R)"
    by (auto simp: register_def Let_def split: sum.splits)
  then show ?thesis using add_methods_mono by simp
qed

lemma param_methods: "router_methods (fst (param E p fn R)) = router_methods R"
  by (simp add: param_def Let_def split: prod.splits)

lemma apply_op_methods_mono: "set (router_methods R) \<subseteq> set (router_methods (apply_op E C call R))"
proof (cases call)
  case (Register name path methods mw)
  then show ?thesis
    using register_methods_mono [of E C name path methods mw R]
    by (auto simp: apply_op_def split: sum.splits)
next
  case (Verb v name path mw)
  then show ?thesis
    using register_methods_mono [of E C name path "Some [v]" mw R]
    by (auto simp: apply_op_def verb_def split: sum.splits)
next
  case (Mount name path mw)
  then show ?thesis
    by (auto simp: apply_op_def mount_def split: sum.splits)
next
  case (Param p fn)
  then show ?thesis by (simp add: apply_op_def param_methods)
qed

lemma apply_ops_methods_mono:
  "set (router_methods R) \<subseteq> set (router_methods (apply_ops E C calls R))"
  unfolding apply_ops_def
proof (induction calls arbitrary: R)
  case Nil
  show ?case by simp
next
  case (Cons c cs)
  have "set (router_methods R) \<subseteq> set (router_methods (apply_op E C c R))"
    by (rule apply_op_methods_mono)
  also have "\<dots> \<subseteq> set (router_methods (fold (apply_op E C) cs (apply_op E C c R)))"
    by (rule Cons.IH)
  finally show ?case by simp
qed

lemma options_accepted: "''OPTIONS'' \<in> set (router_methods (apply_ops E C calls (Router os)))"
proof -
  have "''OPTIONS'' \<in> set (router_methods (Router os))" by (simp add: Router_def)
  then show ?thesis using apply_ops_methods_mono by blast
qed

lemma fallback_options:
  "''OPTIONS'' \<in> set (router_methods R) \<Longrightarrow> ctx_method (ctx s) = ''OPTIONS'' \<Longrightarrow>
   \<not> called s \<Longrightarrow> \<not> explicitStatus (ctx s) \<Longrightarrow> statusCode (ctx (fallback R s)) = 204"
  by (simp add: fallback_def Let_def)

text \<open>
  C10. The accepted methods of a router always contain \<^verbatim>\<open>OPTIONS\<close>: the constructor
  sets them to \<^verbatim>\<open>["OPTIONS"]\<close>, \<^verbatim>\<open>register\<close> only adds to them, so they contain it after
  any calls; the fallback for an \<^verbatim>\<open>OPTIONS\<close> request then sets status 204, never 501.
\<close>

theorem options_always_accepted:
  "router_methods (Router os) = [''OPTIONS''] \<and>
   (\<forall>name path methods mw R r R'.
      register E C name path methods mw R = Inr (r, R') \<longrightarrow>
        set (router_methods R) \<subseteq> set (router_methods R')) \<and>
   ''OPTIONS'' \<in> set (router_methods (apply_ops E C calls (Router os))) \<and>
   (ctx_method (ctx s) = ''OPTIONS'' \<and> \<not> called s \<and> \<not> explicitStatus (ctx s) \<longrightarrow>
      statusCode (ctx (fallback (apply_ops E C calls (Router os)) s)) = 204)"
  using register_methods_mono options_accepted fallback_options
  by (simp add: Router_def)

theorem options_always_accepted_witness:
  "(\<exists>r R'. register example_engine pathToRegexp None (StringPath ''/user'') (Some [''get''])
              [FnArg Return] (Router default_opts) = Inr (r, R') \<and>
            set (router_methods (Router default_opts)) \<subseteq> set (router_methods R')) \<and>
   statusCode (ctx (fallback user_router
      \<lparr>ctx = request ''OPTIONS'' ''/user'', methodsAvailable = [], called = False,
       done_runs = 0\<rparr>)) = 204"
proof -
  let ?reg = "register example_engine pathToRegexp None (StringPath ''/user'') (Some [''get''])
                [FnArg Return] (Router default_opts)"
  let ?s = "\<lparr>ctx = request ''OPTIONS'' ''/user'', methodsAvailable = [], called = False,
             done_runs = 0\<rparr>"
  have "\<not> isl ?reg" by code_simp
  then obtain r R' where reg: "?reg = Inr (r, R')"
    by (cases ?reg) auto
  have s: "ctx_method (ctx ?s) = ''OPTIONS'' \<and> \<not> called ?s \<and> \<not> explicitStatus (ctx ?s)"
    by (simp add: request_def)
  note th = options_always_accepted
    [where E = example_engine and C = pathToRegexp and os = default_opts and s = ?s
       and calls = "[Verb ''get'' None (StringPath ''/user'') [FnArg Return],
                     Verb ''post'' None (StringPath ''/user'') [FnArg Return]]",
     folded user_router_def]
  from th reg s show ?thesis by blast
qed

text \<open>
  The chains of the routes after any calls that register no hook under \<^verbatim>\<open>__proto__\<close>:
  every route holds the hooks of the router, and once there is a hook its chain is, for
  the keys of its pattern in their order, the hook of that name or else the member of
  \<^verbatim>\<open>Object.prototype\<close> of that name, followed by its handlers. Where no key without a
  hook is named like such a member, this is the hooks in the order of the pattern
  followed by the handlers.
\<close>

lemma map_of_object_set: "map_of (object_set p fn ps) = (map_of ps)(p \<mapsto> fn)"
  by (induction ps) (auto simp: fun_eq_iff)

lemma set_object_keys: "set (object_keys ks) = set ks"
  by (auto simp: object_keys_def)

lemma object_keys_Nil: "object_keys ks = [] \<longleftrightarrow> ks = []"
  using set_object_keys [of ks] by (metis set_empty)

lemma hooks_for_plain:
  "fns_proto r = None \<Longrightarrow>
   hooks_for E r ks = Inr (List.map_filter (found_for (fns_params r)) ks)"
proof (induction ks)
  case Nil
  show ?case by (simp add: List.map_filter_simps)
next
  case (Cons k ks)
  then show ?case
    by (auto simp: fns_lookup_def found_for_def List.map_filter_simps split: option.splits)
qed

lemma route_param_plain:
  assumes "fns_proto r = None" and "p \<noteq> ''__proto__''"
  shows "route_param E p fn r =
     (r\<lparr>fns_params := (fns_params r)(p \<mapsto> ParamHook p fn),
        route_middleware :=
          Some (List.map_filter (found_for ((fns_params r)(p \<mapsto> ParamHook p fn))) (route_params r)
                @ fns_middleware r)\<rparr>, None)"
proof -
  let ?r1 = "r\<lparr>fns_params := (fns_params r)(p \<mapsto> ParamHook p fn)\<rparr>"
  have "hooks_for E ?r1 (route_params r) =
          Inr (List.map_filter (found_for (fns_params ?r1)) (route_params r))"
    using assms(1) by (intro hooks_for_plain) simp
  then show ?thesis using assms by (simp add: route_param_def Let_def)
qed

lemma param_each_plain:
  "fns_proto r = None \<Longrightarrow> ks \<noteq> [] \<Longrightarrow> set ks \<subseteq> dom (map_of ps) \<Longrightarrow> ''__proto__'' \<notin> set ks \<Longrightarrow>
   \<exists>r'. param_each E ps ks r = Inr r' \<and> fns_proto r' = None \<and>
     fns_params r' = (\<lambda>name. if name \<in> set ks then map_option (ParamHook name) (map_of ps name)
                               else fns_params r name) \<and>
     route_middleware r' = Some (List.map_filter (found_for (fns_params r')) (route_params r) @ fns_middleware r) \<and>
     route_params r' = route_params r \<and> fns_middleware r' = fns_middleware r"
proof (induction ks arbitrary: r)
  case Nil
  then show ?case by simp
next
  case (Cons k ks)
  from Cons.prems obtain fn where fn: "map_of ps k = Some fn" by auto
  from Cons.prems have k: "k \<noteq> ''__proto__''" by auto
  let ?r1 = "fst (route_param E k fn r)"
  note rp = route_param_plain [OF Cons.prems(1) k, of E fn]
  have r1: "fns_proto ?r1 = None" "fns_params ?r1 = (fns_params r)(k \<mapsto> ParamHook k fn)"
    "route_params ?r1 = route_params r" "fns_middleware ?r1 = fns_middleware r"
    "route_middleware ?r1 = Some (List.map_filter (found_for (fns_params ?r1)) (route_params r) @ fns_middleware r)"
    using Cons.prems(1) by (simp_all add: rp)
  have step: "param_each E ps (k # ks) r = param_each E ps ks ?r1"
    using fn by (simp add: rp)
  show ?case
  proof (cases "ks = []")
    case True
    then show ?thesis using fn r1 step by (auto simp: fun_eq_iff)
  next
    case False
    from Cons.prems have "set ks \<subseteq> dom (map_of ps)" "''__proto__'' \<notin> set ks" by simp_all
    from Cons.IH [OF r1(1) False this] obtain r' where
      r': "param_each E ps ks ?r1 = Inr r'" "fns_proto r' = None"
        "fns_params r' = (\<lambda>name. if name \<in> set ks then map_option (ParamHook name) (map_of ps name)
                               else fns_params ?r1 name)"
        "route_middleware r' = Some (List.map_filter (found_for (fns_params r')) (route_params ?r1) @ fns_middleware ?r1)"
        "route_params r' = route_params ?r1" "fns_middleware r' = fns_middleware ?r1"
      by blast
    have "fns_params r' = (\<lambda>name. if name \<in> set (k # ks) then map_option (ParamHook name) (map_of ps name)
                               else fns_params r name)"
      using r'(3) r1(2) fn by (auto simp: fun_eq_iff)
    with r' r1 step show ?thesis by simp
  qed
qed

lemma Route_fresh:
  "Route C path methods mw name os = Inr r0 \<Longrightarrow>
   fns_proto r0 = None \<and> fns_params r0 = Map.empty \<and>
   route_middleware r0 = constructed_middleware (fns_middleware r0)"
  by (auto simp: Route_def Let_def constructed_middleware_def split: option.splits sum.splits prod.splits)

lemma attach_params_fresh:
  assumes "fns_proto r0 = None" and "fns_params r0 = Map.empty"
    and "route_middleware r0 = constructed_middleware (fns_middleware r0)"
    and "''__proto__'' \<notin> fst ` set (router_params R)"
  shows "\<exists>r. attach_params E R r0 = Inr r \<and> hooks_attached R r"
proof (cases "router_params R = []")
  case True
  then show ?thesis using assms
    by (simp add: attach_params_def object_keys_def hooks_attached_def hook_table_def)
next
  case False
  let ?ps = "router_params R"
  let ?ks = "object_keys (map fst ?ps)"
  have ne: "?ks \<noteq> []" using False by (simp add: object_keys_Nil)
  have sub: "set ?ks \<subseteq> dom (map_of ?ps)" by (simp add: set_object_keys dom_map_of_conv_image_fst)
  have np: "''__proto__'' \<notin> set ?ks" using assms(4) by (simp add: set_object_keys)
  have dom: "\<And>name. name \<notin> set ?ks \<Longrightarrow> map_of ?ps name = None"
    by (simp add: set_object_keys map_of_eq_None_iff)
  from param_each_plain [OF assms(1) ne sub np, of E] obtain r where
    r: "param_each E ?ps ?ks r0 = Inr r" "fns_proto r = None"
      "fns_params r = (\<lambda>name. if name \<in> set ?ks then map_option (ParamHook name) (map_of ?ps name)
                               else fns_params r0 name)"
      "route_middleware r = Some (List.map_filter (found_for (fns_params r)) (route_params r0) @ fns_middleware r0)"
      "route_params r = route_params r0" "fns_middleware r = fns_middleware r0"
    by blast
  have tab: "fns_params r = hook_table R"
    using r(3) assms(2) dom by (auto simp: hook_table_def fun_eq_iff)
  with r False have "hooks_attached R r"
    by (simp add: hooks_attached_def found_chain_def)
  with r(1) show ?thesis by (simp add: attach_params_def)
qed

lemma param_routes_plain:
  "\<forall>r \<in> set rs. fns_proto r = None \<Longrightarrow> p \<noteq> ''__proto__'' \<Longrightarrow>
   param_routes E p fn rs = (map (\<lambda>r. fst (route_param E p fn r)) rs, None)"
proof (induction rs)
  case Nil
  show ?case by simp
next
  case (Cons r rs)
  then have "fns_proto r = None" by simp
  from route_param_plain [OF this Cons.prems(2), of E fn] Cons show ?case by simp
qed

lemma param_plain:
  assumes "hooks_invariant R" and "p \<noteq> ''__proto__''"
  shows "param E p fn R =
     (R\<lparr>router_params := object_set p fn (router_params R),
        router_routes := map (\<lambda>r. fst (route_param E p fn r)) (router_routes R)\<rparr>, None)"
proof -
  from assms(1) have "\<forall>r \<in> set (router_routes R). fns_proto r = None"
    by (simp add: hooks_invariant_def hooks_attached_def)
  from param_routes_plain [OF this assms(2), of E fn] assms show ?thesis
    by (simp add: param_def hooks_invariant_def Let_def)
qed

lemma set_object_set: "fst ` set (object_set p fn ps) = insert p (fst ` set ps)"
  by (simp add: dom_map_of_conv_image_fst [symmetric] map_of_object_set)

lemma route_param_attached:
  assumes "hooks_attached R r" and "p \<noteq> ''__proto__''"
    and "router_params R' = object_set p fn (router_params R)"
  shows "hooks_attached R' (fst (route_param E p fn r))"
proof -
  from assms(1) have proto: "fns_proto r = None" and tab0: "fns_params r = hook_table R"
    by (simp_all add: hooks_attached_def)
  have ne: "router_params R' \<noteq> []"
    using assms(3) by (cases "router_params R") (auto split: if_splits)
  have tab: "hook_table R' = (hook_table R)(p \<mapsto> ParamHook p fn)"
    using assms(3) by (auto simp: hook_table_def map_of_object_set fun_eq_iff)
  show ?thesis
    using proto tab0 tab ne
    by (simp add: route_param_plain [OF proto assms(2)] hooks_attached_def found_chain_def)
qed

lemma hooks_attached_cong:
  "router_params R' = router_params R \<Longrightarrow> hooks_attached R r \<Longrightarrow> hooks_attached R' r"
  by (simp add: hooks_attached_def hook_table_def found_chain_def)

lemma invariant_add_route:
  assumes "hooks_invariant R" and "Route C path methods mw name (router_opts R) = Inr r0"
  shows "\<exists>r. attach_params E R r0 = Inr r \<and> hooks_attached R r"
proof -
  from assms(1) have "''__proto__'' \<notin> fst ` set (router_params R)"
    by (simp add: hooks_invariant_def)
  with Route_fresh [OF assms(2)] show ?thesis
    by (intro attach_params_fresh) simp_all
qed

lemma apply_op_invariant:
  assumes "hooks_invariant R" and "plain_op call"
  shows "hooks_invariant (apply_op E C call R)"
proof (cases call)
  case (Register name path methods mw)
  show ?thesis
  proof (cases "Route C path methods mw name (router_opts R)")
    case (Inl e)
    then show ?thesis using assms Register by (simp add: apply_op_def register_def)
  next
    case (Inr r0)
    from invariant_add_route [OF assms(1) Inr, of E] obtain r where
      r: "attach_params E R r0 = Inr r" "hooks_attached R r" by blast
    let ?R' = "apply_op E C call R"
    have R': "router_routes ?R' = router_routes R @ [r]" "router_params ?R' = router_params R"
      "params_proto ?R' = params_proto R"
      using Inr Register r(1) by (simp_all add: apply_op_def register_def)
    with assms(1) r(2) hooks_attached_cong [OF R'(2)] show ?thesis
      by (auto simp: hooks_invariant_def)
  qed
next
  case (Verb v name path mw)
  show ?thesis
  proof (cases "Route C path (Some [v]) mw name (router_opts R)")
    case (Inl e)
    then show ?thesis using assms Verb by (simp add: apply_op_def verb_def register_def)
  next
    case (Inr r0)
    from invariant_add_route [OF assms(1) Inr, of E] obtain r where
      r: "attach_params E R r0 = Inr r" "hooks_attached R r" by blast
    let ?R' = "apply_op E C call R"
    have R': "router_routes ?R' = router_routes R @ [r]" "router_params ?R' = router_params R"
      "params_proto ?R' = params_proto R"
      using Inr Verb r(1) by (simp_all add: apply_op_def verb_def register_def)
    with assms(1) r(2) hooks_attached_cong [OF R'(2)] show ?thesis
      by (auto simp: hooks_invariant_def)
  qed
next
  case (Mount name path mw)
  show ?thesis
  proof (cases "Route C path None mw name (router_opts R)")
    case (Inl e)
    then show ?thesis using assms Mount by (simp add: apply_op_def mount_def)
  next
    case (Inr r0)
    from invariant_add_route [OF assms(1) Inr, of E] obtain r where
      r: "attach_params E R r0 = Inr r" "hooks_attached R r" by blast
    let ?R' = "apply_op E C call R"
    have R': "router_routes ?R' = router_routes R @ [r]" "router_params ?R' = router_params R"
      "params_proto ?R' = params_proto R"
      using Inr Mount r(1) by (simp_all add: apply_op_def mount_def)
    with assms(1) r(2) hooks_attached_cong [OF R'(2)] show ?thesis
      by (auto simp: hooks_invariant_def)
  qed
next
  case (Param p fn)
  with assms(2) have p: "p \<noteq> ''__proto__''" by (simp add: plain_op_def)
  let ?R' = "apply_op E C call R"
  have R': "router_routes ?R' = map (\<lambda>r. fst (route_param E p fn r)) (router_routes R)"
    "router_params ?R' = object_set p fn (router_params R)"
    "params_proto ?R' = params_proto R"
    using Param by (simp_all add: apply_op_def param_plain [OF assms(1) p])
  have "\<forall>r \<in> set (router_routes ?R'). hooks_attached ?R' r"
    using assms(1) R'(1) route_param_attached [OF _ p R'(2)]
    by (auto simp: hooks_invariant_def)
  with assms(1) R' p show ?thesis
    by (auto simp: hooks_invariant_def set_object_set)
qed

lemma apply_ops_invariant:
  "hooks_invariant R \<Longrightarrow> list_all plain_op calls \<Longrightarrow> hooks_invariant (apply_ops E C calls R)"
  unfolding apply_ops_def
proof (induction calls arbitrary: R)
  case Nil
  then show ?case by simp
next
  case (Cons c cs)
  then have "hooks_invariant (apply_op E C c R)" by (simp add: apply_op_invariant)
  with Cons show ?case by simp
qed

lemma found_chain_expected:
  assumes "\<forall>k \<in> set (route_params r).
             key_name k \<in> fst ` set (router_params R) \<or> object_member (key_name k) = None"
  shows "found_chain R r = expected_chain R r"
proof -
  have "\<And>k. k \<in> set (route_params r) \<Longrightarrow>
      found_for (hook_table R) k = map_option (ParamHook (key_name k)) (map_of (router_params R) (key_name k))"
  proof -
    fix k assume "k \<in> set (route_params r)"
    with assms have "key_name k \<in> fst ` set (router_params R) \<or> object_member (key_name k) = None"
      by simp
    then show "found_for (hook_table R) k =
        map_option (ParamHook (key_name k)) (map_of (router_params R) (key_name k))"
    proof (cases "map_of (router_params R) (key_name k)")
      case None
      then have "key_name k \<notin> fst ` set (router_params R)" by (simp add: map_of_eq_None_iff)
      with \<open>key_name k \<in> fst ` set (router_params R) \<or> object_member (key_name k) = None\<close>
      have "object_member (key_name k) = None" by simp
      with None show ?thesis by (simp add: found_for_def hook_table_def)
    next
      case (Some fn)
      then show ?thesis by (simp add: found_for_def hook_table_def)
    qed
  qed
  then have "List.map_filter (found_for (hook_table R)) (route_params r) =
      List.map_filter (\<lambda>k. map_option (ParamHook (key_name k)) (map_of (router_params R) (key_name k)))
        (route_params r)"
    by (simp add: List.map_filter_def cong: map_cong filter_cong)
  then show ?thesis by (simp add: found_chain_def expected_chain_def)
qed

lemma param_hooks_attached:
  assumes "list_all plain_op calls" and "R = apply_ops E C calls (Router os)"
    and "r \<in> set (router_routes R)"
  shows "fns_params r = hook_table R \<and>
         (router_params R \<noteq> [] \<longrightarrow> route_middleware r = Some (found_chain R r)) \<and>
         (router_params R \<noteq> [] \<and>
          (\<forall>k \<in> set (route_params r).
             key_name k \<in> fst ` set (router_params R) \<or> object_member (key_name k) = None)
          \<longrightarrow> route_middleware r = Some (expected_chain R r))"
proof -
  have "hooks_invariant (Router os)" by (simp add: hooks_invariant_def Router_def)
  from apply_ops_invariant [OF this assms(1), of E C] assms(2,3)
  have "hooks_attached R r" by (simp add: hooks_invariant_def)
  then show ?thesis using found_chain_expected [of r R] by (auto simp: hooks_attached_def)
qed

text \<open>
  C6. On the route \<^verbatim>\<open>/:first/users/:user\<close>, with hooks registered before and after it
  for \<^verbatim>\<open>early\<close>, \<^verbatim>\<open>user\<close>, \<^verbatim>\<open>first\<close> and \<^verbatim>\<open>other\<close>, the chain is the hook for \<^verbatim>\<open>first\<close>, the
  hook for \<^verbatim>\<open>user\<close>, the handler. On the route \<^verbatim>\<open>/:toString\<close>, with a hook for \<^verbatim>\<open>id\<close>
  alone, the lookup of a hook for \<^verbatim>\<open>toString\<close> finds \<^verbatim>\<open>Object.prototype.toString\<close>, and
  the chain is that member, then the handler: the dispatch of \<^verbatim>\<open>GET /x\<close> throws
  \<^verbatim>\<open>TypeError\<close> and the handler has not run.
\<close>

theorem hook_lookup_finds_prototype_member:
  "map (\<lambda>r. map_option (map handler_label) (route_middleware r)) (router_routes hooked_router)
     = [Some [''first'', ''user'', ''handler'']] \<and>
   map fst (router_params toString_router) = [''id''] \<and>
   map (\<lambda>r. map key_name (route_params r)) (router_routes toString_router) = [[''toString'']] \<and>
   object_member ''toString'' = Some (ReturnsValue True) \<and>
   map_sum id (map_option handler_label)
     (fns_lookup example_engine (hd (router_routes toString_router)) ''toString'')
     = Inr (Some ''inherited'') \<and>
   map (\<lambda>r. map_option (map handler_label) (route_middleware r)) (router_routes toString_router)
     = [Some [''inherited'', ''handler'']] \<and>
   (case middleware example_engine toString_router Return (request ''GET'' ''/x'') of
      Returned s \<Rightarrow> False
    | Raised e s \<Rightarrow> e = TypeError ''next is not a generator'' \<and> called s \<and> body (ctx s) = None)"
  by code_simp

text \<open>
  C4. What the constructor hands to the pattern compiler, whatever the compiler: for a
  prefix route on a router with \<^verbatim>\<open>strict\<close> off, \<open>opt_strict\<close> is off and \<open>opt_end\<close> is off; for
  a route with methods on the same router, \<open>opt_strict\<close> is on and \<open>opt_end\<close> is on. And
  \<^verbatim>\<open>router.mount\<close> itself, which passes \<^verbatim>\<open>null\<close> for the methods, throws in the
  constructor for every pattern.
\<close>

theorem mount_strictness:
  "mount E C name path mws R = Inl (TypeError ''Cannot read property 'length' of null'') \<and>
   map_sum id (\<lambda>r. (asPrefix r, route_params r, route_regexp r))
     (Route C (StringPath p) (Some []) [FnArg h] name
        \<lparr>caseSensitive = cs, strict = False, mergeParams = mp\<rparr>)
     = Inr (True, C p \<lparr>opt_sensitive = cs, opt_strict = False, opt_end = False\<rparr>) \<and>
   map_sum id (\<lambda>r. (asPrefix r, route_params r, route_regexp r))
     (Route C (StringPath p) (Some [''get'']) [FnArg h] name
        \<lparr>caseSensitive = cs, strict = False, mergeParams = mp\<rparr>)
     = Inr (False, C p \<lparr>opt_sensitive = cs, opt_strict = True, opt_end = True\<rparr>)"
  by (simp add: mount_def Route_def Let_def split: prod.splits)

section \<open>Properties of URL generation\<close>

lemma router_url_unknown_name:
  "\<forall>r \<in> set (router_routes R). route_name r \<noteq> Some name \<Longrightarrow>
   router_url R name args = ErrorObject (Error (''No route found for name: '' @ name))"
proof -
  assume "\<forall>r \<in> set (router_routes R). route_name r \<noteq> Some name"
  then have "find (\<lambda>r. route_name r = Some name) (router_routes R) = None"
    by (simp add: find_None_iff)
  then show ?thesis
    by (simp add: router_url_def router_route_def)
qed

lemma router_url_known_name:
  "router_route R name = Some r \<Longrightarrow>
   \<exists>u. router_url R name args = Url u \<and> u = route_url r args"
  by (simp add: router_url_def)

text \<open>
  C9. \<^verbatim>\<open>router.url\<close> on the route \<^verbatim>\<open>/:category/:title\<close> named \<^verbatim>\<open>books\<close>: an unknown name
  gives an \<^verbatim>\<open>Error\<close> object as the value; category \<^verbatim>\<open>programming\<close> and title
  \<^verbatim>\<open>how to node\<close> give \<^verbatim>\<open>/programming/how%20to%20node\<close>, as an object and as a list;
  the title \<^verbatim>\<open>$& in sed\<close> gives \<^verbatim>\<open>/programming/%3Atitle%20in%20sed\<close>, the placeholder
  itself, where the encoded title is \<^verbatim>\<open>%24%26%20in%20sed\<close>.
\<close>

theorem url_replacement_pattern_in_value:
  "router_url books_router ''films''
     (ObjectArgs [(''category'', ''programming''), (''title'', ''how to node'')])
     = ErrorObject (Error ''No route found for name: films'') \<and>
   router_url books_router ''books''
     (ObjectArgs [(''category'', ''programming''), (''title'', ''how to node'')])
     = Url ''/programming/how%20to%20node'' \<and>
   router_url books_router ''books'' (ListArgs [''programming'', ''how to node''])
     = Url ''/programming/how%20to%20node'' \<and>
   router_url books_router ''books''
     (ObjectArgs [(''category'', ''programming''), (''title'', ''$& in sed'')])
     = Url ''/programming/%3Atitle%20in%20sed'' \<and>
   encodeURIComponent ''$& in sed'' = ''%24%26%20in%20sed''"
  by code_simp

section \<open>Properties of the dispatch\<close>

subsection \<open>A middleware calls its continuation at most once\<close>

lemma locals_ctx_update [simp]: "locals (s\<lparr>ctx := c\<rparr>) = locals s"
  by (simp add: locals_def)

lemma final_simps [simp]: "final (Returned s) = s" "final (Raised e s) = s"
  by (simp_all add: final_def)

lemma run_value:
  "snd (run p (Value v) u s) = u \<and> locals (final (fst (run p (Value v) u s))) = locals s"
proof (induction p arbitrary: u s)
  case (Choose f)
  have "snd (run (f (ctx s)) (Value v) u s) = u \<and>
        locals (final (fst (run (f (ctx s)) (Value v) u s))) = locals s"
    by (rule Choose.IH) (rule rangeI)
  then show ?case by simp
next
  case (Try b h p)
  obtain ob ub where rb: "run b (Value v) u s = (ob, ub)" by (cases "run b (Value v) u s")
  with Try.IH(1) [of u s] have ub: "ub = u" and lb: "locals (final ob) = locals s" by simp_all
  show ?case
  proof (cases ob)
    case (Returned s')
    with rb ub lb Try.IH(3) [of u s'] show ?thesis by simp
  next
    case (Raised e s')
    obtain oh uh where rh: "run (h e) (Value v) u s' = (oh, uh)"
      by (cases "run (h e) (Value v) u s'")
    have "snd (run (h e) (Value v) u s') = u \<and>
          locals (final (fst (run (h e) (Value v) u s'))) = locals s'"
      by (rule Try.IH(2)) (rule rangeI)
    with rh have uh: "uh = u" and lh: "locals (final oh) = locals s'" by simp_all
    show ?thesis
    proof (cases oh)
      case (Returned s'')
      with rb rh ub lb uh lh \<open>ob = Raised e s'\<close> Try.IH(3) [of u s''] show ?thesis by simp
    next
      case (Raised e' s'')
      with rb rh ub lb uh lh \<open>ob = Raised e s'\<close> show ?thesis by simp
    qed
  qed
qed simp_all

lemma run_used:
  "snd (run p k True s) \<and> locals (final (fst (run p k True s))) = locals s"
proof (cases k)
  case (Value v)
  then show ?thesis using run_value [of p v True s] by simp
next
  case (Generator g)
  have "snd (run p (Generator g) True s) \<and>
        locals (final (fst (run p (Generator g) True s))) = locals s"
  proof (induction p arbitrary: s)
    case (Choose f)
    have "snd (run (f (ctx s)) (Generator g) True s) \<and>
          locals (final (fst (run (f (ctx s)) (Generator g) True s))) = locals s"
      by (rule Choose.IH) (rule rangeI)
    then show ?case by simp
  next
    case (Try b h p)
    obtain ob ub where rb: "run b (Generator g) True s = (ob, ub)"
      by (cases "run b (Generator g) True s")
    with Try.IH(1) [of s] have ub: "ub" and lb: "locals (final ob) = locals s" by simp_all
    show ?case
    proof (cases ob)
      case (Returned s')
      with rb ub lb Try.IH(3) [of s'] show ?thesis by simp
    next
      case (Raised e s')
      obtain oh uh where rh: "run (h e) (Generator g) True s' = (oh, uh)"
        by (cases "run (h e) (Generator g) True s'")
      have "snd (run (h e) (Generator g) True s') \<and>
            locals (final (fst (run (h e) (Generator g) True s'))) = locals s'"
        by (rule Try.IH(2)) (rule rangeI)
      with rh have uh: "uh" and lh: "locals (final oh) = locals s'" by simp_all
      show ?thesis
      proof (cases oh)
        case (Returned s'')
        with rb rh ub lb uh lh \<open>ob = Raised e s'\<close> Try.IH(3) [of s''] show ?thesis by simp
      next
        case (Raised e' s'')
        with rb rh ub lb uh lh \<open>ob = Raised e s'\<close> show ?thesis by simp
      qed
    qed
  qed simp_all
  with Generator show ?thesis by simp
qed

lemma run_unused:
  "prog_calls p s = None \<Longrightarrow> run p k False s = run p (Value False) False s"
proof (induction p arbitrary: s)
  case (Choose f)
  have "run (f (ctx s)) k False s = run (f (ctx s)) (Value False) False s"
    using Choose.prems by (intro Choose.IH) (auto intro: rangeI)
  then show ?case by simp
next
  case (Try b h p)
  from Try.prems have cb: "prog_calls b s = None" by (simp split: option.splits)
  obtain ob ub where rb: "run b (Value False) False s = (ob, ub)"
    by (cases "run b (Value False) False s")
  with run_value [of b False False s] have ub: "ub = False" by simp
  from Try.IH(1) [OF cb] rb have rk: "run b k False s = (ob, False)" using ub by simp
  show ?case
  proof (cases ob)
    case (Returned s')
    with Try.prems cb rb have "prog_calls p s' = None" by simp
    from Try.IH(3) [OF this] Returned rb rk ub show ?thesis by simp
  next
    case (Raised e s')
    with Try.prems cb rb have ch: "prog_calls (h e) s' = None" by (simp split: option.splits)
    obtain oh uh where rh: "run (h e) (Value False) False s' = (oh, uh)"
      by (cases "run (h e) (Value False) False s'")
    with run_value [of "h e" False False s'] have uh: "uh = False" by simp
    have "run (h e) k False s' = run (h e) (Value False) False s'"
      using ch by (intro Try.IH(2)) (auto intro: rangeI)
    with rh uh have rhk: "run (h e) k False s' = (oh, False)" by simp
    show ?thesis
    proof (cases oh)
      case (Returned s'')
      with Try.prems cb rb ch rh \<open>ob = Raised e s'\<close> have "prog_calls p s'' = None" by simp
      from Try.IH(3) [OF this] Returned rb rk ub rh rhk uh \<open>ob = Raised e s'\<close> show ?thesis by simp
    next
      case (Raised e' s'')
      with rb rk ub rh rhk uh \<open>ob = Raised e s'\<close> show ?thesis by simp
    qed
  qed
qed simp_all

lemma run_unused_locals:
  assumes "prog_calls p s = None"
  shows "\<not> snd (run p k False s) \<and> locals (final (fst (run p k False s))) = locals s"
  using run_unused [OF assms, of k] run_value [of p False False s] by simp

lemma run_calls:
  "prog_calls p s = Some t \<Longrightarrow>
   locals t = locals s \<and> snd (run p (Generator g) False s) \<and>
   locals (final (fst (run p (Generator g) False s))) = locals (final (g t))"
proof (induction p arbitrary: s)
  case (Modify f p)
  from Modify.IH [of "s\<lparr>ctx := f (ctx s)\<rparr>"] Modify.prems show ?case by simp
next
  case (Choose f)
  have "locals t = locals s \<and> snd (run (f (ctx s)) (Generator g) False s) \<and>
        locals (final (fst (run (f (ctx s)) (Generator g) False s))) = locals (final (g t))"
    using Choose.prems by (intro Choose.IH) (auto intro: rangeI)
  then show ?case by simp
next
  case (YieldNext p)
  then have t: "t = s" by simp
  show ?case
  proof (cases "g s")
    case (Returned s')
    with run_used [of p "Generator g" s'] t show ?thesis by simp
  next
    case (Raised e s')
    with t show ?thesis by simp
  qed
next
  case (Try b h p)
  let ?k = "Generator g"
  show ?case
  proof (cases "prog_calls b s")
    case (Some tb)
    with Try.prems have tb: "tb = t" by simp
    obtain ob ub where rb: "run b ?k False s = (ob, ub)" by (cases "run b ?k False s")
    from Try.IH(1) [of s] Some tb rb have
      lt: "locals t = locals s" and ub: "ub" and lb: "locals (final ob) = locals (final (g t))"
      by simp_all
    show ?thesis
    proof (cases ob)
      case (Returned s')
      with rb ub lb lt run_used [of p ?k s'] show ?thesis by simp
    next
      case (Raised e s')
      obtain oh uh where rh: "run (h e) ?k True s' = (oh, uh)" by (cases "run (h e) ?k True s'")
      with run_used [of "h e" ?k s'] have uh: "uh" and lh: "locals (final oh) = locals s'" by simp_all
      show ?thesis
      proof (cases oh)
        case (Returned s'')
        with rb rh ub lb lt uh lh \<open>ob = Raised e s'\<close> run_used [of p ?k s''] show ?thesis by simp
      next
        case (Raised e' s'')
        with rb rh ub lb lt uh lh \<open>ob = Raised e s'\<close> show ?thesis by simp
      qed
    qed
  next
    case None
    obtain ob ub where rb: "run b (Value False) False s = (ob, ub)"
      by (cases "run b (Value False) False s")
    with run_value [of b False False s] have ub: "ub = False" and lb: "locals (final ob) = locals s"
      by simp_all
    from run_unused [OF None, of ?k] rb ub have rk: "run b ?k False s = (ob, False)" by simp
    show ?thesis
    proof (cases ob)
      case (Returned s')
      with Try.prems None rb have "prog_calls p s' = Some t" by simp
      from Try.IH(3) [OF this] Returned rk lb show ?thesis by simp
    next
      case (Raised e s')
      show ?thesis
      proof (cases "prog_calls (h e) s'")
        case (Some th)
        with Try.prems None rb Raised have th: "th = t" by simp
        obtain oh uh where rh: "run (h e) ?k False s' = (oh, uh)" by (cases "run (h e) ?k False s'")
        have "locals t = locals s' \<and> snd (run (h e) ?k False s') \<and>
              locals (final (fst (run (h e) ?k False s'))) = locals (final (g t))"
          using Some th by (intro Try.IH(2)) (auto intro: rangeI)
        with rh have lt: "locals t = locals s'" and uh: "uh"
          and lh: "locals (final oh) = locals (final (g t))" by simp_all
        show ?thesis
        proof (cases oh)
          case (Returned s'')
          with rk rh lb lt uh lh Raised run_used [of p ?k s''] show ?thesis by simp
        next
          case (Raised e' s'')
          with rk rh lb lt uh lh \<open>ob = Raised e s'\<close> show ?thesis by simp
        qed
      next
        case hNone: None
        obtain oh uh where rh: "run (h e) (Value False) False s' = (oh, uh)"
          by (cases "run (h e) (Value False) False s'")
        with run_value [of "h e" False False s'] have uh: "uh = False"
          and lh: "locals (final oh) = locals s'" by simp_all
        from run_unused [OF hNone, of ?k] rh uh have rhk: "run (h e) ?k False s' = (oh, False)" by simp
        show ?thesis
        proof (cases oh)
          case (Returned s'')
          with Try.prems None rb Raised hNone rh have "prog_calls p s'' = Some t" by simp
          from Try.IH(3) [OF this] Returned rk rhk lb lh Raised show ?thesis by simp
        next
          case Raised2: (Raised e' s'')
          with Try.prems None rb Raised hNone rh show ?thesis by simp
        qed
      qed
    qed
  qed
qed simp_all

lemma delegate_simps [simp]:
  "delegate (Generator g) s = g s"
  "delegate (Value v) s = Raised not_a_generator s"
  by (simp_all add: delegate_def)

lemma run_step:
  "(prog_calls p s = None \<longrightarrow> locals (final (fst (run p k False s))) = locals s) \<and>
   (\<forall>t. prog_calls p s = Some t \<longrightarrow>
      locals t = locals s \<and>
      locals (final (fst (run p k False s))) = locals (final (delegate k t)))"
proof (cases k)
  case (Generator g)
  then show ?thesis using run_unused_locals [of p s k] run_calls [of p s _ g] by simp
next
  case (Value v)
  have "\<And>t. prog_calls p s = Some t \<Longrightarrow> locals t = locals s"
    using run_calls [of p s _ Returned] by simp
  then show ?thesis using Value run_value [of p v False s] by simp
qed

lemma progs_sem:
  "(progs_call ps s = None \<longrightarrow> locals (final (delegate (progs_cont ps k) s)) = locals s) \<and>
   (\<forall>t. progs_call ps s = Some t \<longrightarrow>
      locals t = locals s \<and>
      locals (final (delegate (progs_cont ps k) s)) = locals (final (delegate k t)))"
proof (induction ps arbitrary: s)
  case Nil
  show ?case by simp
next
  case (Cons p ps)
  let ?k = "progs_cont ps k"
  have d: "delegate (progs_cont (p # ps) k) s = fst (run p ?k False s)" by simp
  show ?case
  proof (cases "prog_calls p s")
    case None
    with run_step [of p s ?k] show ?thesis unfolding d by simp
  next
    case (Some t1)
    with run_step [of p s ?k] have t1: "locals t1 = locals s"
      and r: "locals (final (fst (run p ?k False s))) = locals (final (delegate ?k t1))"
      by simp_all
    from Cons.IH [of t1] t1 r Some show ?thesis unfolding d by simp
  qed
qed

lemma compose_calls_sem:
  "compose_calls hs (Generator g) = Inr k' \<Longrightarrow>
   (handlers_call hs s = None \<longrightarrow> locals (final (delegate k' s)) = locals s) \<and>
   (\<forall>t. handlers_call hs s = Some t \<longrightarrow>
      locals t = locals s \<and> locals (final (delegate k' s)) = locals (final (g t))) \<and>
   (\<forall>v. k' = Value v \<longrightarrow> handlers_call hs s = None)"
proof (induction hs arbitrary: k' s)
  case Nil
  then show ?case by auto
next
  case (Cons h hs)
  from Cons.prems obtain k2 where k2: "compose_calls hs (Generator g) = Inr k2"
    and ch: "call_handler h k2 = Inr k'"
    by (auto split: sum.splits)
  note IH = Cons.IH [OF k2]
  have val: "\<And>v t. k2 = Value v \<Longrightarrow> handlers_call hs t = None"
    using IH by blast
  have comp: "\<And>f c. (\<And>s. delegate k' s = f s) \<Longrightarrow> handler_calls h = c \<Longrightarrow>
      (\<And>s. (c s = None \<longrightarrow> locals (final (f s)) = locals s) \<and>
            (\<forall>t. c s = Some t \<longrightarrow> locals t = locals s \<and>
                 locals (final (f s)) = locals (final (delegate k2 t)))) \<Longrightarrow>
      (handlers_call (h # hs) s = None \<longrightarrow> locals (final (delegate k' s)) = locals s) \<and>
      (\<forall>t. handlers_call (h # hs) s = Some t \<longrightarrow>
         locals t = locals s \<and> locals (final (delegate k' s)) = locals (final (g t)))"
  proof -
    fix f c
    assume f: "\<And>s. delegate k' s = f s" and c: "handler_calls h = c"
      and st: "\<And>s. (c s = None \<longrightarrow> locals (final (f s)) = locals s) \<and>
            (\<forall>t. c s = Some t \<longrightarrow> locals t = locals s \<and>
                 locals (final (f s)) = locals (final (delegate k2 t)))"
    show "(handlers_call (h # hs) s = None \<longrightarrow> locals (final (delegate k' s)) = locals s) \<and>
      (\<forall>t. handlers_call (h # hs) s = Some t \<longrightarrow>
         locals t = locals s \<and> locals (final (delegate k' s)) = locals (final (g t)))"
    proof (cases "c s")
      case None
      with st [of s] f c show ?thesis by simp
    next
      case (Some t1)
      with st [of s] have t1: "locals t1 = locals s"
        and r: "locals (final (f s)) = locals (final (delegate k2 t1))" by simp_all
      from IH [of t1] t1 r f c Some show ?thesis by simp
    qed
  qed
  show ?case
  proof (cases h)
    case (Gen p)
    with ch have k': "k' = Generator (\<lambda>s. fst (run p k2 False s))" by (simp add: call_handler_def)
    have "(handlers_call (h # hs) s = None \<longrightarrow> locals (final (delegate k' s)) = locals s) \<and>
      (\<forall>t. handlers_call (h # hs) s = Some t \<longrightarrow>
         locals t = locals s \<and> locals (final (delegate k' s)) = locals (final (g t)))"
    proof (rule comp)
      show "\<And>s. delegate k' s = fst (run p k2 False s)" using k' by simp
      show "handler_calls h = prog_calls p" using Gen by (simp add: handler_calls_def fun_eq_iff)
      show "\<And>s. (prog_calls p s = None \<longrightarrow> locals (final (fst (run p k2 False s))) = locals s) \<and>
            (\<forall>t. prog_calls p s = Some t \<longrightarrow> locals t = locals s \<and>
                 locals (final (fst (run p k2 False s))) = locals (final (delegate k2 t)))"
        by (rule run_step)
    qed
    then show ?thesis using k' by simp
  next
    case (ParamHook name fn)
    let ?f = "\<lambda>s. case ctx_params (ctx s) of
              None \<Rightarrow> Raised (TypeError ''Cannot read property of undefined'') s
            | Some a \<Rightarrow> fst (run (fn (obj_get a name)) k2 False s)"
    from ParamHook ch have k': "k' = Generator ?f" by (simp add: call_handler_def)
    have "(handlers_call (h # hs) s = None \<longrightarrow> locals (final (delegate k' s)) = locals s) \<and>
      (\<forall>t. handlers_call (h # hs) s = Some t \<longrightarrow>
         locals t = locals s \<and> locals (final (delegate k' s)) = locals (final (g t)))"
    proof (rule comp)
      show "\<And>s. delegate k' s = ?f s" using k' by simp
      show "handler_calls h = handler_calls h" ..
      fix s
      show "(handler_calls h s = None \<longrightarrow> locals (final (?f s)) = locals s) \<and>
            (\<forall>t. handler_calls h s = Some t \<longrightarrow> locals t = locals s \<and>
                 locals (final (?f s)) = locals (final (delegate k2 t)))"
      proof (cases "ctx_params (ctx s)")
        case None
        then show ?thesis using ParamHook by (simp add: handler_calls_def)
      next
        case (Some a)
        then show ?thesis using ParamHook run_step [of "fn (obj_get a name)" s k2]
          by (simp add: handler_calls_def)
      qed
    qed
    then show ?thesis using k' by simp
  next
    case (Composed ps)
    let ?k0 = "if truthy k2 then k2 else Generator Returned"
    from Composed ch have k': "k' = Generator (compose_progs ps k2)" by (simp add: call_handler_def)
    have "(handlers_call (h # hs) s = None \<longrightarrow> locals (final (delegate k' s)) = locals s) \<and>
      (\<forall>t. handlers_call (h # hs) s = Some t \<longrightarrow>
         locals t = locals s \<and> locals (final (delegate k' s)) = locals (final (g t)))"
    proof (rule comp)
      show "\<And>s. delegate k' s = compose_progs ps k2 s" using k' by simp
      show "handler_calls h = progs_call ps" using Composed by (simp add: handler_calls_def fun_eq_iff)
      fix s
      have e: "\<And>t. locals (final (delegate ?k0 t)) = locals (final (delegate k2 t))"
        by (cases k2) (simp_all add: truthy_def)
      from progs_sem [of ps s ?k0] e
      show "(progs_call ps s = None \<longrightarrow> locals (final (compose_progs ps k2 s)) = locals s) \<and>
            (\<forall>t. progs_call ps s = Some t \<longrightarrow> locals t = locals s \<and>
                 locals (final (compose_progs ps k2 s)) = locals (final (delegate k2 t)))"
        by (simp add: compose_progs_def)
    qed
    then show ?thesis using k' by simp
  next
    case (Inherited b)
    show ?thesis
    proof (cases b)
      case ReturnsNext
      show ?thesis
      proof (cases k2)
        case (Generator g2)
        with Inherited ReturnsNext ch have "k' = k2" by (simp add: call_handler_def)
        with IH [of s] Inherited ReturnsNext Generator show ?thesis
          by (simp add: handler_calls_def)
      next
        case (Value v)
        with Inherited ReturnsNext ch have "k' = Value True" by (simp add: call_handler_def)
        with val [OF Value, of s] Inherited ReturnsNext show ?thesis
          by (simp add: handler_calls_def)
      qed
    next
      case (ReturnsValue v)
      with Inherited ch have "k' = Value v" by (simp add: call_handler_def)
      with Inherited ReturnsValue show ?thesis by (simp add: handler_calls_def)
    next
      case (CallThrows e)
      with Inherited ch show ?thesis by (simp add: call_handler_def)
    qed
  qed
qed

lemma compose_calls_throws:
  "(\<exists>e. compose_calls hs k = Inl e) \<longleftrightarrow> list_ex call_throws hs"
proof (induction hs)
  case Nil
  show ?case by simp
next
  case (Cons h hs)
  show ?case
  proof (cases "compose_calls hs k")
    case (Inl e)
    with Cons show ?thesis by auto
  next
    case (Inr k2)
    with Cons have "\<not> list_ex call_throws hs" by auto
    moreover have "(\<exists>e. call_handler h k2 = Inl e) \<longleftrightarrow> call_throws h"
      by (auto simp: call_handler_def call_throws_def split: handler.splits inherited.splits)
    ultimately show ?thesis using Inr by simp
  qed
qed

lemma run_chain_sem:
  "(chain_calls chain s = None \<longrightarrow> locals (final (run_chain chain g s)) = locals s) \<and>
   (\<forall>t. chain_calls chain s = Some t \<longrightarrow>
      locals t = locals s \<and> locals (final (run_chain chain g s)) = locals (final (g t)))"
proof (cases "compose_calls chain (Generator g)")
  case (Inl e)
  then have "list_ex call_throws chain" using compose_calls_throws [of chain "Generator g"] by auto
  with Inl show ?thesis by (simp add: chain_calls_def run_chain_def)
next
  case (Inr k')
  then have "\<not> list_ex call_throws chain" using compose_calls_throws [of chain "Generator g"] by auto
  with compose_calls_sem [OF Inr, of s] Inr show ?thesis
    by (simp add: chain_calls_def run_chain_def)
qed

lemma with_locals_ctx: "with_locals ma ca n (s\<lparr>ctx := c\<rparr>) = (with_locals ma ca n s)\<lparr>ctx := c\<rparr>"
  "ctx (with_locals ma ca n s) = ctx s"
  by (simp_all add: with_locals_def)

lemma run_frame:
  "run p (Generator Returned) u (with_locals ma ca n s) =
     (lift (with_locals ma ca n) (fst (run p (Generator Returned) u s)),
      snd (run p (Generator Returned) u s))"
proof (induction p arbitrary: u s)
  case Return
  show ?case by (simp add: lift_def)
next
  case (Throw e)
  show ?case by (simp add: lift_def)
next
  case (Modify f p)
  have "(with_locals ma ca n s)\<lparr>ctx := f (ctx (with_locals ma ca n s))\<rparr>
          = with_locals ma ca n (s\<lparr>ctx := f (ctx s)\<rparr>)"
    by (simp add: with_locals_def)
  then show ?case using Modify.IH [of u "s\<lparr>ctx := f (ctx s)\<rparr>"] by simp
next
  case (Choose f)
  have "run (f (ctx s)) (Generator Returned) u (with_locals ma ca n s) =
     (lift (with_locals ma ca n) (fst (run (f (ctx s)) (Generator Returned) u s)),
      snd (run (f (ctx s)) (Generator Returned) u s))"
    by (rule Choose.IH) (rule rangeI)
  then show ?case by (simp add: with_locals_ctx)
next
  case (YieldNext p)
  show ?case using YieldNext.IH by (simp add: lift_def)
next
  case (Try b h p)
  let ?k = "Generator Returned"
  obtain ob ub where rb: "run b ?k u s = (ob, ub)" by (cases "run b ?k u s")
  have ih_h: "\<And>e u s. run (h e) ?k u (with_locals ma ca n s) =
     (lift (with_locals ma ca n) (fst (run (h e) ?k u s)), snd (run (h e) ?k u s))"
    by (rule Try.IH(2)) (rule rangeI)
  show ?case
  proof (cases ob)
    case (Returned s')
    with rb Try.IH(1) [of u s] Try.IH(3) show ?thesis by (simp add: lift_def)
  next
    case (Raised e s')
    obtain oh uh where rh: "run (h e) ?k ub s' = (oh, uh)" by (cases "run (h e) ?k ub s'")
    show ?thesis
    proof (cases oh)
      case (Returned s'')
      with rb rh \<open>ob = Raised e s'\<close> Try.IH(1) [of u s] ih_h [of e ub s'] Try.IH(3) show ?thesis
        by (simp add: lift_def)
    next
      case (Raised e' s'')
      with rb rh \<open>ob = Raised e s'\<close> Try.IH(1) [of u s] ih_h [of e ub s'] show ?thesis
        by (simp add: lift_def)
    qed
  qed
qed

lemma yield_done_first:
  assumes "done_runs s = 0"
  shows "yield_done done s =
     lift (with_locals (methodsAvailable s) (called s) 1) (run_downstream done (ctx s))"
proof -
  let ?s0 = "\<lparr>ctx = ctx s, methodsAvailable = [], called = False, done_runs = 0\<rparr>"
  have "s\<lparr>done_runs := Suc 0\<rparr> = with_locals (methodsAvailable s) (called s) 1 ?s0"
    by (simp add: with_locals_def)
  then show ?thesis
    using assms run_frame [of "done" False "methodsAvailable s" "called s" 1 ?s0]
    by (simp add: yield_done_def run_downstream_def Let_def)
qed

lemma locals_lift_with_locals: "locals (final (lift (with_locals ma ca n) out)) = (ma, ca, n)"
  by (cases out) (simp_all add: lift_def with_locals_def locals_def)

lemma yield_done_runs: "done_runs (final (yield_done done s)) = Suc (done_runs s)"
proof (cases "done_runs s = 0")
  case True
  from yield_done_first [OF True, of "done"] locals_lift_with_locals
  show ?thesis using True by (simp add: locals_def)
next
  case False
  then show ?thesis by (simp add: yield_done_def Let_def)
qed

lemma locals_simps [simp]:
  "locals (fallback R s) = locals s"
  "locals (restore pp pn s) = locals s"
  by (simp_all add: fallback_def restore_def locals_def Let_def)

lemma done_runs_simps [simp]:
  "done_runs (fallback R s) = done_runs s"
  "done_runs (restore pp pn s) = done_runs s"
  "done_runs (record_available method r s) = done_runs s"
  by (simp_all add: fallback_def restore_def record_available_def Let_def)

lemma rescope_locals: "locals (final (rescope E R ps m s)) = locals s"
  by (simp add: rescope_def Let_def locals_def split: sum.splits)

lemma rescope_done_runs: "done_runs (final (rescope E R ps m s)) = done_runs s"
  using rescope_locals [of E R ps m s] by (simp add: locals_def)

lemma router_next_skip:
  "\<not> invoked method (m_route m) \<Longrightarrow>
   router_next E R done pathname method params (m # ms) s =
     router_next E R done pathname method params ms (record_available method (m_route m) s)"
  by (simp add: Let_def)

lemma router_next_rescope_raised:
  "invoked method (m_route m) \<Longrightarrow>
   rescope E R params m ((record_available method (m_route m) s)\<lparr>called := True\<rparr>) = Raised e s2 \<Longrightarrow>
   router_next E R done pathname method params (m # ms) s = Raised e s2"
  by (simp add: Let_def)

lemma router_next_undefined:
  "invoked method (m_route m) \<Longrightarrow>
   rescope E R params m ((record_available method (m_route m) s)\<lparr>called := True\<rparr>) = Returned s2 \<Longrightarrow>
   route_middleware (m_route m) = None \<Longrightarrow>
   router_next E R done pathname method params (m # ms) s =
     Raised (TypeError ''Cannot read property 'call' of undefined'') s2"
  by (simp add: Let_def)

lemma router_next_call:
  "invoked method (m_route m) \<Longrightarrow>
   rescope E R params m ((record_available method (m_route m) s)\<lparr>called := True\<rparr>) = Returned s2 \<Longrightarrow>
   route_middleware (m_route m) = Some chain \<Longrightarrow>
   router_next E R done pathname method params (m # ms) s =
     (case run_chain chain (router_next E R done pathname method params ms) s2 of
        Raised e s3 \<Rightarrow> Raised e s3
      | Returned s3 \<Rightarrow> Returned (restore (ctx_params (ctx s)) (ctx_path (ctx s)) s3))"
  by (simp add: Let_def)

lemma router_next_exhausted:
  "router_next E R done pathname method params [] s =
     (case yield_done done (s\<lparr>ctx := (ctx s)\<lparr>ctx_path := pathname, ctx_params := params\<rparr>\<rparr>) of
        Raised e s2 \<Rightarrow> Raised e s2
      | Returned s2 \<Rightarrow> Returned (restore (ctx_params (ctx s)) (ctx_path (ctx s)) (fallback R s2)))"
  by (simp add: Let_def)

lemma reaches_end_skip:
  "\<not> invoked method (m_route m) \<Longrightarrow>
   reaches_end E R method params (m # ms) s =
     reaches_end E R method params ms (record_available method (m_route m) s)"
  by (simp add: Let_def)

lemma router_next_done_runs:
  "done_runs s = 0 \<Longrightarrow>
   done_runs (final (router_next E R done pathname method params cands s)) =
     (if reaches_end E R method params cands s then 1 else 0)"
proof (induction cands arbitrary: s)
  case Nil
  let ?s1 = "s\<lparr>ctx := (ctx s)\<lparr>ctx_path := pathname, ctx_params := params\<rparr>\<rparr>"
  have "done_runs (final (yield_done done ?s1)) = 1"
    using Nil yield_done_runs [of "done" ?s1] by simp
  then show ?case
    unfolding router_next_exhausted by (cases "yield_done done ?s1") simp_all
next
  case (Cons m ms)
  let ?N = "router_next E R done pathname method params ms"
  let ?s1 = "record_available method (m_route m) s"
  let ?rs = "rescope E R params m (?s1\<lparr>called := True\<rparr>)"
  have d1: "done_runs ?s1 = 0" using Cons.prems by simp
  have drs: "done_runs (final ?rs) = 0"
    using Cons.prems by (simp add: rescope_done_runs)
  show ?case
  proof (cases "invoked method (m_route m)")
    case False
    show ?thesis
      unfolding router_next_skip [OF False] reaches_end_skip [OF False] by (rule Cons.IH [OF d1])
  next
    case True
    show ?thesis
    proof (cases ?rs)
      case (Raised e s2)
      with drs True show ?thesis
        by (simp add: router_next_rescope_raised [OF True Raised] Let_def)
    next
      case (Returned s2)
      with drs have d2: "done_runs s2 = 0" by simp
      show ?thesis
      proof (cases "route_middleware (m_route m)")
        case None
        with d2 True Returned show ?thesis
          by (simp add: router_next_undefined [OF True Returned None] Let_def)
      next
        case (Some chain)
        let ?out = "run_chain chain ?N s2"
        have rn: "done_runs (final (router_next E R done pathname method params (m # ms) s))
                    = done_runs (final ?out)"
          unfolding router_next_call [OF True Returned Some] by (cases ?out) simp_all
        have re: "reaches_end E R method params (m # ms) s =
                    (case chain_calls chain s2 of None \<Rightarrow> False
                     | Some t \<Rightarrow> reaches_end E R method params ms t)"
          using True Returned Some by (simp add: Let_def)
        show ?thesis
        proof (cases "chain_calls chain s2")
          case None
          with run_chain_sem [of chain s2 ?N] have "locals (final ?out) = locals s2" by simp
          then have "done_runs (final ?out) = 0" using d2 by (simp add: locals_def)
          with rn re None show ?thesis by simp
        next
          case (Some t)
          with run_chain_sem [of chain s2 ?N] have lt: "locals t = locals s2"
            and lo: "locals (final ?out) = locals (final (?N t))" by simp_all
          from lt d2 have "done_runs t = 0" by (simp add: locals_def)
          from Cons.IH [OF this] lo have "done_runs (final ?out) =
              (if reaches_end E R method params ms t then 1 else 0)"
            by (simp add: locals_def)
          with rn re Some show ?thesis by simp
        qed
      qed
    qed
  qed
qed

lemma router_next_restores:
  "router_next E R done pathname method params cands s = Returned s' \<Longrightarrow>
   ctx_path (ctx s') = ctx_path (ctx s) \<and> ctx_params (ctx s') = ctx_params (ctx s)"
proof (induction cands arbitrary: s)
  case Nil
  then show ?case
    unfolding router_next_exhausted
    by (cases "yield_done done (s\<lparr>ctx := (ctx s)\<lparr>ctx_path := pathname, ctx_params := params\<rparr>\<rparr>)")
       (auto simp: restore_def)
next
  case (Cons m ms)
  let ?rs = "rescope E R params m ((record_available method (m_route m) s)\<lparr>called := True\<rparr>)"
  show ?case
  proof (cases "invoked method (m_route m)")
    case True
    show ?thesis
    proof (cases ?rs)
      case (Raised e s2)
      with True Cons.prems show ?thesis by (simp add: router_next_rescope_raised)
    next
      case (Returned s2)
      show ?thesis
      proof (cases "route_middleware (m_route m)")
        case None
        with True Returned Cons.prems show ?thesis by (simp add: router_next_undefined)
      next
        case (Some chain)
        let ?out = "run_chain chain (router_next E R done pathname method params ms) s2"
        from Cons.prems show ?thesis
          unfolding router_next_call [OF True Returned Some]
          by (cases ?out) (auto simp: restore_def)
      qed
    qed
  next
    case False
    from Cons.prems have "router_next E R done pathname method params ms
        (record_available method (m_route m) s) = Returned s'"
      unfolding router_next_skip [OF False] .
    from Cons.IH [OF this] show ?thesis
      by (simp add: record_available_def split: if_splits)
  qed
qed

lemma router_next_propagates:
  assumes "invoked method (m_route m)" and "route_middleware (m_route m) = Some chain"
    and "rescope E R params m ((record_available method (m_route m) s)\<lparr>called := True\<rparr>) = Returned s2"
    and "run_chain chain (router_next E R done pathname method params ms) s2 = Raised e t"
  shows "router_next E R done pathname method params (m # ms) s = Raised e t"
  using assms(4) unfolding router_next_call [OF assms(1,3,2)] by simp

lemma set_fold_key_set: "set (fold key_set xs ma) = set xs \<union> set ma"
  by (induction xs arbitrary: ma) (auto simp: key_set_def)

lemma distinct_fold_key_set: "distinct ma \<Longrightarrow> distinct (fold key_set xs ma)"
  by (induction xs arbitrary: ma) (auto simp: key_set_def)

lemma not_invoked_record:
  "\<not> invoked method r \<Longrightarrow>
   record_available method r s =
     s\<lparr>methodsAvailable := (if method = ''OPTIONS'' then fold key_set (route_methods r) (methodsAvailable s)
                             else methodsAvailable s)\<rparr>"
  by (simp add: invoked_def record_available_def)

lemma router_next_none_invoked:
  "list_all (\<lambda>m. \<not> invoked method (m_route m)) cands \<Longrightarrow>
   router_next E R done pathname method params cands s =
     router_next E R done pathname method params []
       (s\<lparr>methodsAvailable := collect method cands (methodsAvailable s)\<rparr>)"
proof (induction cands arbitrary: s)
  case Nil
  have "s\<lparr>methodsAvailable := collect method [] (methodsAvailable s)\<rparr> = s"
    by (simp add: collect_def)
  then show ?case by (simp only:)
next
  case (Cons m ms)
  from Cons.prems have m: "\<not> invoked method (m_route m)"
    and ms: "list_all (\<lambda>m. \<not> invoked method (m_route m)) ms" by simp_all
  let ?s1 = "record_available method (m_route m) s"
  have "(?s1\<lparr>methodsAvailable := collect method ms (methodsAvailable ?s1)\<rparr>)
          = s\<lparr>methodsAvailable := collect method (m # ms) (methodsAvailable s)\<rparr>"
    by (simp add: not_invoked_record [OF m] collect_def)
  with Cons.IH [OF ms, of ?s1] show ?case
    by (simp only: router_next_skip [OF m])
qed

lemma reaches_end_none_invoked:
  "list_all (\<lambda>m. \<not> invoked method (m_route m)) cands \<Longrightarrow> reaches_end E R method params cands s"
proof (induction cands arbitrary: s)
  case Nil
  show ?case by simp
next
  case (Cons m ms)
  then show ?case by (simp add: Let_def)
qed

lemma dispatch_fallback:
  assumes "router_match E R (ctx_path c) = Inr (Some cands)"
    and "list_all (\<lambda>m. \<not> invoked (ctx_method c) (m_route m)) cands"
    and "run_downstream done c = Returned t"
  shows "middleware E R done c =
     Returned (restore (ctx_params c) (ctx_path c)
                (fallback R (with_locals (collect (ctx_method c) cands []) False 1 t)))"
proof -
  let ?s = "\<lparr>ctx = c, methodsAvailable = [], called = False, done_runs = 0\<rparr>"
  let ?s' = "?s\<lparr>methodsAvailable := collect (ctx_method c) cands (methodsAvailable ?s)\<rparr>"
  let ?s1 = "?s'\<lparr>ctx := (ctx ?s')\<lparr>ctx_path := ctx_path c, ctx_params := ctx_params c\<rparr>\<rparr>"
  have "middleware E R done c = router_next E R done (ctx_path c) (ctx_method c) (ctx_params c) cands ?s"
    using assms(1) by (simp add: middleware_def)
  also have "\<dots> = router_next E R done (ctx_path c) (ctx_method c) (ctx_params c) [] ?s'"
    by (rule router_next_none_invoked [OF assms(2)])
  finally have mid: "middleware E R done c =
      router_next E R done (ctx_path c) (ctx_method c) (ctx_params c) [] ?s'" .
  have "yield_done done ?s1 =
      lift (with_locals (collect (ctx_method c) cands []) False 1) (run_downstream done c)"
    using yield_done_first [of ?s1 "done"] by simp
  then have "yield_done done ?s1 = Returned (with_locals (collect (ctx_method c) cands []) False 1 t)"
    using assms(3) by (simp add: lift_def)
  then show ?thesis
    unfolding mid router_next_exhausted by simp
qed

lemma synthesized_status:
  "\<not> called s \<Longrightarrow> \<not> explicitStatus (ctx s) \<Longrightarrow> ''OPTIONS'' \<in> set (router_methods R) \<Longrightarrow>
   statusCode (ctx (fallback R s)) =
     (if ctx_method (ctx s) = ''OPTIONS'' then 204
      else if ctx_method (ctx s) \<in> set (router_methods R) then 405 else 501)"
  by (simp add: fallback_def Let_def)

lemma fallback_Allow:
  "\<not> called s \<Longrightarrow> \<not> explicitStatus (ctx s) \<Longrightarrow>
   headers (ctx (fallback R s)) ''Allow'' = Some (join '', '' (object_keys (methodsAvailable s)))
   \<and> methodsAvailable (fallback R s) = methodsAvailable s"
  by (simp add: fallback_def Let_def)

lemma dispatch_no_match:
  assumes "router_match E R (ctx_path c) = Inr None"
  shows "middleware E R done c = lift (with_locals [] False 1) (run_downstream done c)"
  using assms yield_done_first [of "\<lparr>ctx = c, methodsAvailable = [], called = False, done_runs = 0\<rparr>" "done"]
  by (simp add: middleware_def)

subsection \<open>Restoring the context\<close>

text \<open>
  C1. Whenever \<^verbatim>\<open>next\<close> returns, the path and the params of the context are what they
  were when it began, whatever the middleware it called did to them. When the
  middleware of the candidate it calls throws, \<^verbatim>\<open>next\<close> throws the same error and
  leaves the state as the middleware left it: the error is not swallowed, and the
  path and the params are not restored. The same when \<^verbatim>\<open>mergeParams\<close> throws while the
  context is being replaced: the path is then that of the route already.
\<close>

theorem rescope_restored_on_return:
  "(router_next E R done pathname method params cands s = Returned s' \<longrightarrow>
      ctx_path (ctx s') = ctx_path (ctx s) \<and> ctx_params (ctx s') = ctx_params (ctx s)) \<and>
   (invoked method (m_route m) \<and> route_middleware (m_route m) = Some chain \<and>
    rescope E R params m ((record_available method (m_route m) s)\<lparr>called := True\<rparr>) = Returned s2 \<and>
    run_chain chain (router_next E R done pathname method params ms) s2 = Raised e t
    \<longrightarrow> router_next E R done pathname method params (m # ms) s = Raised e t) \<and>
   (invoked method (m_route m) \<and>
    rescope E R params m ((record_available method (m_route m) s)\<lparr>called := True\<rparr>) = Raised e t
    \<longrightarrow> router_next E R done pathname method params (m # ms) s = Raised e t \<and>
        ctx_path (ctx t) = m_path m \<and> ctx_params (ctx t) = ctx_params (ctx s))"
proof (intro conjI)
  show "router_next E R done pathname method params cands s = Returned s' \<longrightarrow>
      ctx_path (ctx s') = ctx_path (ctx s) \<and> ctx_params (ctx s') = ctx_params (ctx s)"
  proof
    assume "router_next E R done pathname method params cands s = Returned s'"
    then show "ctx_path (ctx s') = ctx_path (ctx s) \<and> ctx_params (ctx s') = ctx_params (ctx s)"
      by (rule router_next_restores)
  qed
next
  show "invoked method (m_route m) \<and> route_middleware (m_route m) = Some chain \<and>
    rescope E R params m ((record_available method (m_route m) s)\<lparr>called := True\<rparr>) = Returned s2 \<and>
    run_chain chain (router_next E R done pathname method params ms) s2 = Raised e t
    \<longrightarrow> router_next E R done pathname method params (m # ms) s = Raised e t"
  proof
    assume "invoked method (m_route m) \<and> route_middleware (m_route m) = Some chain \<and>
      rescope E R params m ((record_available method (m_route m) s)\<lparr>called := True\<rparr>) = Returned s2 \<and>
      run_chain chain (router_next E R done pathname method params ms) s2 = Raised e t"
    then show "router_next E R done pathname method params (m # ms) s = Raised e t"
      by (elim conjE) (rule router_next_propagates)
  qed
next
  let ?s1 = "(record_available method (m_route m) s)\<lparr>called := True\<rparr>"
  show "invoked method (m_route m) \<and> rescope E R params m ?s1 = Raised e t
    \<longrightarrow> router_next E R done pathname method params (m # ms) s = Raised e t \<and>
        ctx_path (ctx t) = m_path m \<and> ctx_params (ctx t) = ctx_params (ctx s)"
  proof
    assume a: "invoked method (m_route m) \<and> rescope E R params m ?s1 = Raised e t"
    then have "router_next E R done pathname method params (m # ms) s = Raised e t"
      by (simp add: router_next_rescope_raised)
    moreover from a have "t = ?s1\<lparr>ctx := (ctx ?s1)\<lparr>ctx_path := m_path m\<rparr>\<rparr>"
      by (auto simp: rescope_def Let_def split: if_splits sum.splits)
    then have "ctx_path (ctx t) = m_path m \<and> ctx_params (ctx t) = ctx_params (ctx s)"
      by (simp add: record_available_def)
    ultimately show "router_next E R done pathname method params (m # ms) s = Raised e t \<and>
        ctx_path (ctx t) = m_path m \<and> ctx_params (ctx t) = ctx_params (ctx s)"
      by simp
  qed
qed

theorem rescope_restored_on_return_witness:
  "(\<exists>s'. router_next example_engine first_router Return ''/first/second/third'' ''GET'' None
            (candidates example_engine first_router ''/first/second/third'')
            (start (request ''GET'' ''/first/second/third'')) = Returned s' \<and>
         ctx_path (ctx s') = ''/first/second/third'' \<and> ctx_params (ctx s') = None) \<and>
   (\<exists>e t. router_next example_engine throwing_router Return ''/user'' ''GET'' None
             [hd (candidates example_engine throwing_router ''/user'')]
             (start (request ''GET'' ''/user''))
             = Raised e t \<and> ctx_path (ctx t) = ''/'') \<and>
   (\<exists>t. router_next example_engine merging_router Return ''/user'' ''GET''
             (ctx_params request_with_length)
             [hd (candidates example_engine merging_router ''/user'')] (start request_with_length)
             = Raised (RangeError ''Invalid array length'') t \<and> ctx_path (ctx t) = ''/'')"
proof -
  let ?E = example_engine
  let ?s = "start (request ''GET'' ''/first/second/third'')"
  let ?out = "router_next ?E first_router Return ''/first/second/third'' ''GET'' None
            (candidates ?E first_router ''/first/second/third'') ?s"
  have "case ?out of Returned s' \<Rightarrow> True | Raised e t \<Rightarrow> False"
    by code_simp
  then obtain s' where s': "?out = Returned s'"
    by (cases ?out) auto
  have s: "ctx_path (ctx ?s) = ''/first/second/third''" "ctx_params (ctx ?s) = None"
    by (simp_all add: start_def request_def)
  from rescope_restored_on_return [of ?E first_router Return "''/first/second/third''" "''GET''" None
      "candidates ?E first_router ''/first/second/third''" ?s s'] s' s
  have 1: "ctx_path (ctx s') = ''/first/second/third'' \<and> ctx_params (ctx s') = None"
    by simp
  let ?m = "hd (candidates ?E throwing_router ''/user'')"
  let ?t = "start (request ''GET'' ''/user'')"
  let ?N = "router_next ?E throwing_router Return ''/user'' ''GET'' None []"
  let ?rs = "rescope ?E throwing_router None ?m ((record_available ''GET'' (m_route ?m) ?t)\<lparr>called := True\<rparr>)"
  have inv: "invoked ''GET'' (m_route ?m)"
    by code_simp
  have "case ?rs of Returned s2 \<Rightarrow> True | Raised e t \<Rightarrow> False"
    by code_simp
  then obtain s2 where rs: "?rs = Returned s2"
    by (cases ?rs) auto
  have "case route_middleware (m_route ?m) of None \<Rightarrow> False
        | Some chain \<Rightarrow> (case run_chain chain ?N (final ?rs) of
                          Returned s' \<Rightarrow> False | Raised e t \<Rightarrow> ctx_path (ctx t) = ''/'')"
    by code_simp
  with rs obtain chain e t where
    c: "route_middleware (m_route ?m) = Some chain" "run_chain chain ?N s2 = Raised e t"
       "ctx_path (ctx t) = ''/''"
    by (auto simp: final_def split: option.splits outcome.splits)
  from rescope_restored_on_return [of ?E throwing_router Return "''/user''" "''GET''" None _ ?t _ ?m chain s2 "[]" e t]
    inv c rs
  have 2: "router_next ?E throwing_router Return ''/user'' ''GET'' None [?m] ?t = Raised e t"
    by blast
  let ?mm = "hd (candidates ?E merging_router ''/user'')"
  let ?mt = "start request_with_length"
  let ?mrs = "rescope ?E merging_router (ctx_params request_with_length) ?mm
                ((record_available ''GET'' (m_route ?mm) ?mt)\<lparr>called := True\<rparr>)"
  have minv: "invoked ''GET'' (m_route ?mm)"
    by code_simp
  have "case ?mrs of Returned s2 \<Rightarrow> False
        | Raised e t \<Rightarrow> e = RangeError ''Invalid array length''"
    by code_simp
  then obtain mt where mrs: "?mrs = Raised (RangeError ''Invalid array length'') mt"
    by (cases ?mrs) auto
  have mp: "m_path ?mm = ''/''"
    by code_simp
  from rescope_restored_on_return [of ?E merging_router Return "''/user''" "''GET''"
      "ctx_params request_with_length" _ ?mt _ ?mm _ _ "[]" "RangeError ''Invalid array length''" mt]
    minv mrs mp
  have 3: "router_next ?E merging_router Return ''/user'' ''GET'' (ctx_params request_with_length)
             [?mm] ?mt = Raised (RangeError ''Invalid array length'') mt \<and> ctx_path (ctx mt) = ''/''"
    by simp
  from s' 1 2 c(3) 3 show ?thesis by blast
qed

text \<open>
  A handler that throws: the dispatch ends with the error and the path of the route
  context, \<^verbatim>\<open>/\<close>, not the path of the request. Under a prefix route that catches the
  error, the path seen in the \<^verbatim>\<open>catch\<close> block is that of the inner route context.
\<close>

theorem rescope_not_restored_on_raise:
  "(case middleware example_engine throwing_router Return (request ''GET'' ''/user'') of
      Returned s \<Rightarrow> False
    | Raised e s \<Rightarrow> e = Thrown ''boom'' \<and> ctx_path (ctx s) = ''/''
                    \<and> ctx_path (ctx s) \<noteq> ctx_path (request ''GET'' ''/user'')) \<and>
   body (ctx (final (middleware example_engine probe_router Return (request ''GET'' ''/api/user''))))
     = Some ''/''"
  by code_simp

subsection \<open>The fallback status and the \<^verbatim>\<open>Allow\<close> header\<close>

text \<open>
  C2. When no route matches the path, the dispatch is what comes after the router and
  nothing else: no status is set. When routes match, none of them is called, and what
  comes after the router returns with no explicit status, the dispatch returns with
  status 204 if the method of the context is \<^verbatim>\<open>OPTIONS\<close>, else 405 if the method is
  among the methods of the router, else 501. The router is any router built by calls
  from \<^verbatim>\<open>new Router\<close>.
\<close>

theorem fallback_status:
  "(router_match E (apply_ops E C calls (Router os)) (ctx_path c) = Inr None \<longrightarrow>
      middleware E (apply_ops E C calls (Router os)) done c =
        lift (with_locals [] False 1) (run_downstream done c)) \<and>
   (router_match E (apply_ops E C calls (Router os)) (ctx_path c) = Inr (Some cands) \<and>
    list_all (\<lambda>m. \<not> invoked (ctx_method c) (m_route m)) cands \<and>
    run_downstream done c = Returned t \<and> \<not> explicitStatus (ctx t) \<longrightarrow>
      (\<exists>s'. middleware E (apply_ops E C calls (Router os)) done c = Returned s' \<and>
           statusCode (ctx s') =
             (if ctx_method (ctx t) = ''OPTIONS'' then 204
              else if ctx_method (ctx t) \<in> set (router_methods (apply_ops E C calls (Router os)))
                   then 405 else 501)))"
proof (intro conjI impI)
  assume "router_match E (apply_ops E C calls (Router os)) (ctx_path c) = Inr None"
  then show "middleware E (apply_ops E C calls (Router os)) done c =
        lift (with_locals [] False 1) (run_downstream done c)"
    by (rule dispatch_no_match)
next
  let ?R = "apply_ops E C calls (Router os)"
  let ?t = "with_locals (collect (ctx_method c) cands []) False 1 t"
  assume a: "router_match E ?R (ctx_path c) = Inr (Some cands) \<and>
    list_all (\<lambda>m. \<not> invoked (ctx_method c) (m_route m)) cands \<and>
    run_downstream done c = Returned t \<and> \<not> explicitStatus (ctx t)"
  then have t: "\<not> called ?t" "\<not> explicitStatus (ctx ?t)" "ctx_method (ctx ?t) = ctx_method (ctx t)"
    by (simp_all add: with_locals_def)
  from a have "middleware E ?R done c = Returned (restore (ctx_params c) (ctx_path c) (fallback ?R ?t))"
    by (intro dispatch_fallback) simp_all
  moreover have "statusCode (ctx (restore (ctx_params c) (ctx_path c) (fallback ?R ?t)))
      = statusCode (ctx (fallback ?R ?t))"
    by (simp add: restore_def)
  ultimately show "\<exists>s'. middleware E ?R done c = Returned s' \<and>
           statusCode (ctx s') =
             (if ctx_method (ctx t) = ''OPTIONS'' then 204
              else if ctx_method (ctx t) \<in> set (router_methods ?R) then 405 else 501)"
    using synthesized_status [OF t(1,2) options_accepted [of E C calls os]] t(3) by simp
qed

theorem fallback_status_witness:
  "statusCode (ctx (final (lift (with_locals [] False 1)
      (run_downstream Return (request ''DELETE'' ''/other''))))) = 404 \<and>
   middleware example_engine user_router Return (request ''DELETE'' ''/other'') =
     lift (with_locals [] False 1) (run_downstream Return (request ''DELETE'' ''/other'')) \<and>
   (\<exists>s'. middleware example_engine user_router Return (request ''DELETE'' ''/user'') = Returned s' \<and>
        statusCode (ctx s') = 501)"
proof -
  let ?E = example_engine
  note th = fallback_status
    [where E = example_engine and C = pathToRegexp and os = default_opts
       and calls = "[Verb ''get'' None (StringPath ''/user'') [FnArg Return],
                     Verb ''post'' None (StringPath ''/user'') [FnArg Return]]",
     folded user_router_def]
  have "case router_match ?E user_router ''/other'' of Inr None \<Rightarrow> True | _ \<Rightarrow> False"
    by code_simp
  then have "router_match ?E user_router (ctx_path (request ''DELETE'' ''/other'')) = Inr None"
    by (auto simp: request_def split: option.splits sum.splits)
  with th [of "request ''DELETE'' ''/other''" Return]
  have 1: "middleware ?E user_router Return (request ''DELETE'' ''/other'') =
     lift (with_locals [] False 1) (run_downstream Return (request ''DELETE'' ''/other''))"
    by blast
  have 0: "statusCode (ctx (final (lift (with_locals [] False 1)
      (run_downstream Return (request ''DELETE'' ''/other''))))) = 404"
    by (simp add: run_downstream_def lift_def with_locals_def request_def)
  let ?c = "request ''DELETE'' ''/user''"
  let ?cands = "candidates ?E user_router ''/user''"
  have "case router_match ?E user_router ''/user'' of Inr (Some ms) \<Rightarrow> True | _ \<Rightarrow> False"
    by code_simp
  then have m: "router_match ?E user_router (ctx_path ?c) = Inr (Some ?cands)"
    by (auto simp: candidates_def request_def split: option.splits sum.splits)
  have "list_all (\<lambda>m. \<not> invoked ''DELETE'' (m_route m)) ?cands"
    by code_simp
  then have n: "list_all (\<lambda>m. \<not> invoked (ctx_method ?c) (m_route m)) ?cands"
    by (simp add: request_def)
  have d: "run_downstream Return ?c = Returned (start ?c)"
    by (simp add: run_downstream_def start_def)
  have e: "\<not> explicitStatus (ctx (start ?c))"
    by (simp add: start_def request_def)
  have k: "ctx_method (ctx (start ?c)) = ''DELETE''"
    by (simp add: start_def request_def)
  have r: "router_methods user_router = [''OPTIONS'', ''GET'', ''POST'']"
    by code_simp
  from th [of ?c Return ?cands "start ?c"] m n d e
  obtain s' where "middleware ?E user_router Return ?c = Returned s'"
    "statusCode (ctx s') =
       (if ctx_method (ctx (start ?c)) = ''OPTIONS'' then 204
        else if ctx_method (ctx (start ?c)) \<in> set (router_methods user_router) then 405 else 501)"
    by blast
  with k r have 2: "\<exists>s'. middleware ?E user_router Return ?c = Returned s' \<and> statusCode (ctx s') = 501"
    by simp
  from 0 1 2 show ?thesis by blast
qed

text \<open>
  No route of the router matches \<^verbatim>\<open>/other\<close>: for \<^verbatim>\<open>DELETE /other\<close> no candidate was
  called and no explicit status was set, \<^verbatim>\<open>DELETE\<close> is not among the methods of the
  router, and the status is still 404, not 501.
\<close>

theorem no_fallback_without_candidates:
  "router_match example_engine user_router ''/other'' = Inr None \<and>
   \<not> called (final (middleware example_engine user_router Return (request ''DELETE'' ''/other''))) \<and>
   \<not> explicitStatus (ctx (final (middleware example_engine user_router Return (request ''DELETE'' ''/other'')))) \<and>
   ''DELETE'' \<notin> set (router_methods user_router) \<and>
   statusCode (ctx (final (middleware example_engine user_router Return (request ''DELETE'' ''/other'')))) = 404"
proof -
  have "case router_match example_engine user_router ''/other'' of Inr None \<Rightarrow> True | _ \<Rightarrow> False"
    by code_simp
  then have "router_match example_engine user_router ''/other'' = Inr None"
    by (auto split: option.splits sum.splits)
  moreover have "\<not> called (final (middleware example_engine user_router Return (request ''DELETE'' ''/other''))) \<and>
   \<not> explicitStatus (ctx (final (middleware example_engine user_router Return (request ''DELETE'' ''/other'')))) \<and>
   ''DELETE'' \<notin> set (router_methods user_router) \<and>
   statusCode (ctx (final (middleware example_engine user_router Return (request ''DELETE'' ''/other'')))) = 404"
    by code_simp
  ultimately show ?thesis by simp
qed

text \<open>
  C3. When routes match, none of them is called, and what comes after the router
  returns with no explicit status, the \<^verbatim>\<open>Allow\<close> header is the recorded methods joined
  by a comma and a space, in the order of \<^verbatim>\<open>Object.keys\<close>; the recorded methods are
  distinct, and they are the methods of the candidates if the request method is
  \<^verbatim>\<open>OPTIONS\<close>, and none otherwise. This holds for each of the three statuses.
\<close>

theorem allow_header:
  assumes "router_match E R (ctx_path c) = Inr (Some cands)"
    and "list_all (\<lambda>m. \<not> invoked (ctx_method c) (m_route m)) cands"
    and "run_downstream done c = Returned t"
    and "\<not> explicitStatus (ctx t)"
  shows "\<exists>s'. middleware E R done c = Returned s' \<and>
           headers (ctx s') ''Allow'' = Some (join '', '' (object_keys (methodsAvailable s'))) \<and>
           distinct (methodsAvailable s') \<and>
           set (methodsAvailable s') =
             (if ctx_method c = ''OPTIONS''
              then (\<Union>m \<in> set cands. set (route_methods (m_route m))) else {})"
proof -
  let ?ma = "collect (ctx_method c) cands []"
  let ?t = "with_locals ?ma False 1 t"
  let ?s' = "restore (ctx_params c) (ctx_path c) (fallback R ?t)"
  have t: "\<not> called ?t" "\<not> explicitStatus (ctx ?t)" "methodsAvailable ?t = ?ma"
    using assms(4) by (simp_all add: with_locals_def)
  have mid: "middleware E R done c = Returned ?s'"
    by (rule dispatch_fallback [OF assms(1-3)])
  have "headers (ctx ?s') ''Allow'' = headers (ctx (fallback R ?t)) ''Allow''"
    "methodsAvailable ?s' = methodsAvailable (fallback R ?t)"
    by (simp_all add: restore_def)
  with fallback_Allow [OF t(1,2), of R] t(3)
  have h: "headers (ctx ?s') ''Allow'' = Some (join '', '' (object_keys (methodsAvailable ?s')))"
    "methodsAvailable ?s' = ?ma"
    by simp_all
  have "distinct ?ma" by (simp add: collect_def distinct_fold_key_set)
  moreover have "set ?ma = (if ctx_method c = ''OPTIONS''
              then (\<Union>m \<in> set cands. set (route_methods (m_route m))) else {})"
    by (auto simp: collect_def set_fold_key_set)
  ultimately show ?thesis using mid h by simp
qed

theorem allow_header_witness:
  "\<exists>s'. middleware example_engine user_router Return (request ''OPTIONS'' ''/user'') = Returned s' \<and>
        headers (ctx s') ''Allow'' = Some ''GET, POST'' \<and> statusCode (ctx s') = 204"
proof -
  let ?E = example_engine
  let ?c = "request ''OPTIONS'' ''/user''"
  let ?cands = "candidates ?E user_router ''/user''"
  have "case router_match ?E user_router ''/user'' of Inr (Some ms) \<Rightarrow> True | _ \<Rightarrow> False"
    by code_simp
  then have m: "router_match ?E user_router (ctx_path ?c) = Inr (Some ?cands)"
    by (auto simp: candidates_def request_def split: option.splits sum.splits)
  have "list_all (\<lambda>m. \<not> invoked ''OPTIONS'' (m_route m)) ?cands"
    by code_simp
  then have n: "list_all (\<lambda>m. \<not> invoked (ctx_method ?c) (m_route m)) ?cands"
    by (simp add: request_def)
  have d: "run_downstream Return ?c = Returned (start ?c)"
    by (simp add: run_downstream_def start_def)
  have e: "\<not> explicitStatus (ctx (start ?c))"
    by (simp add: start_def request_def)
  from allow_header [OF m n d e] obtain s' where
    s': "middleware ?E user_router Return ?c = Returned s'"
    "headers (ctx s') ''Allow'' = Some (join '', '' (object_keys (methodsAvailable s')))"
    by blast
  have "methodsAvailable (final (middleware ?E user_router Return ?c)) = [''GET'', ''POST'']
      \<and> statusCode (ctx (final (middleware ?E user_router Return ?c))) = 204"
    by code_simp
  with s' have "methodsAvailable s' = [''GET'', ''POST'']" "statusCode (ctx s') = 204" by simp_all
  moreover have "join '', '' (object_keys [''GET'', ''POST'']) = ''GET, POST''"
    by code_simp
  ultimately show ?thesis using s' by simp
qed

text \<open>
  With \<^verbatim>\<open>GET /user\<close> and \<^verbatim>\<open>POST /user\<close> registered, \<^verbatim>\<open>DELETE /user\<close> ends with status 501
  and an empty \<^verbatim>\<open>Allow\<close> header, not with 405 and \<^verbatim>\<open>GET, POST\<close>.
\<close>

theorem allow_header_counterexample:
  "statusCode (ctx (final (middleware example_engine user_router Return (request ''DELETE'' ''/user'')))) = 501 \<and>
   headers (ctx (final (middleware example_engine user_router Return (request ''DELETE'' ''/user'')))) ''Allow'' = Some []"
  by code_simp

subsection \<open>What comes after the router runs at most once\<close>

text \<open>
  C5. In a dispatch \<^verbatim>\<open>yield *done\<close> is executed at most once. It is executed exactly
  once when no route matches the path. When routes match it is executed once if the
  walk reaches the end of the candidates, that is if every candidate that is called
  has middleware (parameter hooks and handlers) that comes to delegate to its
  continuation, and not at all otherwise; the walk reaches the end when no candidate
  is called. When \<^verbatim>\<open>router.match\<close> throws it is not executed.
\<close>

theorem downstream_at_most_once:
  "done_runs (final (middleware E R done c)) \<le> 1 \<and>
   (router_match E R (ctx_path c) = Inr None \<longrightarrow> done_runs (final (middleware E R done c)) = 1) \<and>
   (router_match E R (ctx_path c) = Inr (Some cands) \<longrightarrow>
      done_runs (final (middleware E R done c)) =
        (if reaches_end E R (ctx_method c) (ctx_params c) cands (start c) then 1 else 0)) \<and>
   (list_all (\<lambda>m. \<not> invoked (ctx_method c) (m_route m)) cands \<longrightarrow>
      reaches_end E R (ctx_method c) (ctx_params c) cands (start c)) \<and>
   (router_match E R (ctx_path c) = Inl e \<longrightarrow> done_runs (final (middleware E R done c)) = 0)"
proof -
  let ?s = "\<lparr>ctx = c, methodsAvailable = [], called = False, done_runs = 0\<rparr>"
  have none: "router_match E R (ctx_path c) = Inr None \<Longrightarrow> done_runs (final (middleware E R done c)) = 1"
    using yield_done_runs [of "done" ?s] by (simp add: middleware_def)
  have some: "\<And>ms. router_match E R (ctx_path c) = Inr (Some ms) \<Longrightarrow>
      done_runs (final (middleware E R done c)) =
        (if reaches_end E R (ctx_method c) (ctx_params c) ms (start c) then 1 else 0)"
    using router_next_done_runs [of ?s E R "done" "ctx_path c" "ctx_method c" "ctx_params c"]
    by (simp add: middleware_def start_def)
  have err: "\<And>e. router_match E R (ctx_path c) = Inl e \<Longrightarrow> done_runs (final (middleware E R done c)) = 0"
    by (simp add: middleware_def)
  have "done_runs (final (middleware E R done c)) \<le> 1"
  proof (cases "router_match E R (ctx_path c)")
    case (Inl e)
    then show ?thesis using err by simp
  next
    case (Inr res)
    then show ?thesis using none some by (cases res) simp_all
  qed
  then show ?thesis using none some err reaches_end_none_invoked by blast
qed

theorem downstream_at_most_once_witness:
  "done_runs (final (middleware example_engine user_router Return (request ''DELETE'' ''/other''))) = 1 \<and>
   done_runs (final (middleware example_engine delegating_router Return (request ''GET'' ''/users/7''))) = 1 \<and>
   done_runs (final (middleware example_engine user_router Return (request ''OPTIONS'' ''/user''))) = 1 \<and>
   done_runs (final (middleware example_engine length_router Return (request ''GET'' ''/100%''))) = 0"
proof -
  let ?E = example_engine
  have "case router_match ?E user_router ''/other'' of Inr None \<Rightarrow> True | _ \<Rightarrow> False"
    by code_simp
  then have "router_match ?E user_router (ctx_path (request ''DELETE'' ''/other'')) = Inr None"
    by (auto simp: request_def split: option.splits sum.splits)
  with downstream_at_most_once [of ?E user_router Return "request ''DELETE'' ''/other''"]
  have 1: "done_runs (final (middleware ?E user_router Return (request ''DELETE'' ''/other''))) = 1"
    by blast
  let ?c = "request ''GET'' ''/users/7''"
  let ?cands = "candidates ?E delegating_router ''/users/7''"
  have "case router_match ?E delegating_router ''/users/7'' of Inr (Some ms) \<Rightarrow> True | _ \<Rightarrow> False"
    by code_simp
  then have m: "router_match ?E delegating_router (ctx_path ?c) = Inr (Some ?cands)"
    by (auto simp: candidates_def request_def split: option.splits sum.splits)
  have "reaches_end ?E delegating_router ''GET'' None ?cands (start ?c)"
    by code_simp
  then have p: "reaches_end ?E delegating_router (ctx_method ?c) (ctx_params ?c) ?cands (start ?c)"
    by (simp add: request_def)
  from downstream_at_most_once [of ?E delegating_router Return ?c ?cands] m p
  have 2: "done_runs (final (middleware ?E delegating_router Return ?c)) = 1"
    by simp
  let ?o = "request ''OPTIONS'' ''/user''"
  let ?oc = "candidates ?E user_router ''/user''"
  have "case router_match ?E user_router ''/user'' of Inr (Some ms) \<Rightarrow> True | _ \<Rightarrow> False"
    by code_simp
  then have om: "router_match ?E user_router (ctx_path ?o) = Inr (Some ?oc)"
    by (auto simp: candidates_def request_def split: option.splits sum.splits)
  have "list_all (\<lambda>m. \<not> invoked ''OPTIONS'' (m_route m)) ?oc"
    by code_simp
  then have on: "list_all (\<lambda>m. \<not> invoked (ctx_method ?o) (m_route m)) ?oc"
    by (simp add: request_def)
  from downstream_at_most_once [of ?E user_router Return ?o ?oc] om on
  have 3: "done_runs (final (middleware ?E user_router Return ?o)) = 1"
    by simp
  let ?l = "request ''GET'' ''/100%''"
  have "case router_match ?E length_router ''/100%'' of Inl e \<Rightarrow> True | _ \<Rightarrow> False"
    by code_simp
  then obtain e where "router_match ?E length_router (ctx_path ?l) = Inl e"
    by (auto simp: request_def split: sum.splits)
  with downstream_at_most_once [of ?E length_router Return ?l _ e]
  have 4: "done_runs (final (middleware ?E length_router Return ?l)) = 0"
    by blast
  from 1 2 3 4 show ?thesis by simp
qed

text \<open>
  \<^verbatim>\<open>GET /user\<close> on a route whose handler returns without delegating to its
  continuation: the handler was called, and \<^verbatim>\<open>yield *done\<close> was never executed.
\<close>

theorem downstream_skipped_by_handler:
  "called (final (middleware example_engine user_router Return (request ''GET'' ''/user''))) \<and>
   done_runs (final (middleware example_engine user_router Return (request ''GET'' ''/user''))) = 0"
  by code_simp

end
